theory Spec2Isabelle
  imports Complex_Main "HOL-Library.Word" "HOL-Library.AList"
begin

section \<open>Pixels, decoded images and exceptions\<close>

text \<open>
  The program is \<^verbatim>\<open>img2svg_pixelperfect_ui.py\<close>. After \<^verbatim>\<open>pil_img.convert("RGBA")\<close>
  every pixel is a quadruple of 8-bit channels; \<^verbatim>\<open>img.size\<close> is \<^verbatim>\<open>(w, h)\<close> and
  \<^verbatim>\<open>img.load()\<close> is the pixel accessor, indexed by \<^verbatim>\<open>[x, y]\<close>.
\<close>

type_synonym channel = "8 word"

type_synonym pixel = "channel \<times> channel \<times> channel \<times> channel"

record image =
  size_w :: nat
  size_h :: nat
  pixels :: "nat \<times> nat \<Rightarrow> pixel"

text \<open>
  A path is the list of its parts below the root (a resolved absolute path).
\<close>

type_synonym path = "string list"

text \<open>
  The exceptions the modelled operations raise. Those of the operating system carry
  the path of the call that failed, except the failed write. \<open>OSError_ENOSPC\<close> and
  \<open>OSError_ENOTEMPTY\<close> are plain \<^verbatim>\<open>OSError\<close>s (no space left on the device; a
  directory that is not empty); \<open>DecodeError\<close> is any exception of Pillow, with its
  message.
\<close>

datatype exn =
    IndexError
  | FileNotFoundError path
  | FileExistsError path
  | IsADirectoryError path
  | NotADirectoryError path
  | PermissionError path
  | OSError_ENOSPC
  | OSError_ENOTEMPTY path
  | DecodeError string

text \<open>
  \<^verbatim>\<open>pixels[x, y]\<close>: the accessor raises \<^verbatim>\<open>IndexError\<close> outside the image.
\<close>

definition getpixel :: "image \<Rightarrow> nat \<Rightarrow> nat \<Rightarrow> exn + pixel" where
  "getpixel img x y =
     (if x < size_w img \<and> y < size_h img then Inr (pixels img (x, y)) else Inl IndexError)"

section \<open>Number formatting\<close>

text \<open>
  Python's \<^verbatim>\<open>str(n)\<close> and \<^verbatim>\<open>format(n, "X")\<close> of a non-negative integer: the digits
  of \<open>n\<close> in base 10 and in base 16 (upper case), most significant first.
\<close>

definition digit_char :: "nat \<Rightarrow> char" where
  "digit_char d = ''0123456789ABCDEF'' ! d"

function digits_of :: "nat \<Rightarrow> nat \<Rightarrow> string" where
  "digits_of b n =
     (if b < 2 \<or> n < b then [digit_char n] else digits_of b (n div b) @ [digit_char (n mod b)])"
  by pat_completeness auto
termination
  by (relation "measure (\<lambda>(b, n). n)") auto

declare digits_of.simps [simp del]

definition str_nat :: "nat \<Rightarrow> string" where
  "str_nat n = digits_of 10 n"

definition zfill :: "nat \<Rightarrow> string \<Rightarrow> string" where
  "zfill k s = replicate (k - length s) CHR ''0'' @ s"

text \<open>\<^verbatim>\<open>f"{v:02X}"\<close>: upper-case hexadecimal, zero-padded to width 2.\<close>

definition format_02X :: "nat \<Rightarrow> string" where
  "format_02X v = zfill 2 (digits_of 16 v)"

text \<open>
  \<^verbatim>\<open>f"{q:.6f}"\<close> prints the decimal expansion of \<open>q\<close> rounded to six places, ties to
  even. The value printed by the program is the double \<^verbatim>\<open>a / 255.0\<close>; it is modelled
  by the exact quotient. The digits do not depend on that choice: by
  \<open>format_6f_stable\<close> below, every value within \<open>10\<^sup>-\<^sup>9\<close> of the exact quotient
  prints the same six digits, and the double is far closer to it than that.
\<close>

definition round_half_even :: "rat \<Rightarrow> int" where
  "round_half_even q =
     (let f = \<lfloor>q\<rfloor>; d = q - of_int f
      in if d < 1 / 2 then f else if 1 / 2 < d then f + 1 else if even f then f else f + 1)"

definition format_6f :: "rat \<Rightarrow> string" where
  "format_6f q =
     (let n = nat (round_half_even (\<bar>q\<bar> * 1000000))
      in (if q < 0 then ''-'' else '''') @ str_nat (n div 1000000) @ ''.''
           @ zfill 6 (str_nat (n mod 1000000)))"

section \<open>The pixel-perfect converter\<close>

text \<open>
  \<^verbatim>\<open>def rgba_to_svg_fill(r, g, b, a):
      return f"#{r:02X}{g:02X}{b:02X}", (a / 255.0)\<close>
\<close>

definition rgba_to_svg_fill :: "channel \<Rightarrow> channel \<Rightarrow> channel \<Rightarrow> channel \<Rightarrow> string \<times> rat" where
  "rgba_to_svg_fill r g b a =
     (''#'' @ format_02X (unat r) @ format_02X (unat g) @ format_02X (unat b),
      of_nat (unat a) / 255)"

text \<open>
  One emitted run: the values \<^verbatim>\<open>y\<close>, \<^verbatim>\<open>run_start\<close>, \<^verbatim>\<open>run_len\<close> and
  \<^verbatim>\<open>(run_r, run_g, run_b, run_a)\<close> at the moment the loop body writes its
  \<^verbatim>\<open><rect>\<close>.
\<close>

record run =
  run_y :: nat
  run_start :: nat
  run_len :: nat
  run_rgba :: pixel

text \<open>
  The inner loop
  \<^verbatim>\<open>while x < w and pixels[x, y] == (run_r, run_g, run_b, run_a): x += 1\<close>;
  the result is the value of \<^verbatim>\<open>x\<close> when it exits.
\<close>

function run_end :: "image \<Rightarrow> nat \<Rightarrow> pixel \<Rightarrow> nat \<Rightarrow> exn + nat" where
  "run_end img y c x =
     (if x < size_w img then
        (case getpixel img x y of
           Inl e \<Rightarrow> Inl e
         | Inr p \<Rightarrow> if p = c then run_end img y c (x + 1) else Inr x)
      else Inr x)"
  by pat_completeness auto
termination
  by (relation "measure (\<lambda>(img, y, c, x). size_w img - x)") auto

declare run_end.simps [simp del]

lemma run_end_bounds:
  "run_end img y c x = Inr x' \<Longrightarrow> x \<le> x' \<and> x' \<le> max x (size_w img)"
proof (induction img y c x rule: run_end.induct)
  case (1 img y c x)
  show ?case
  proof (cases "x < size_w img")
    case False
    with "1.prems" show ?thesis by (simp add: run_end.simps[of img y c x])
  next
    case True
    show ?thesis
    proof (cases "getpixel img x y")
      case (Inl e)
      with True "1.prems" show ?thesis by (simp add: run_end.simps[of img y c x])
    next
      case (Inr p)
      show ?thesis
      proof (cases "p = c")
        case False
        with True Inr "1.prems" show ?thesis by (simp add: run_end.simps[of img y c x])
      next
        case same: True
        from True Inr same "1.prems" have "run_end img y c (x + 1) = Inr x'"
          by (simp add: run_end.simps[of img y c x])
        from "1.IH"[OF True Inr same this] True show ?thesis
          by simp
      qed
    qed
  qed
qed

text \<open>
  The body of \<^verbatim>\<open>for y in range(h)\<close>: the loop \<^verbatim>\<open>while x < w\<close> from column \<open>x\<close>
  on. The result is the list of runs written, in the order written, and the exception
  that ended the scan, if any.
\<close>

function scan_row :: "image \<Rightarrow> nat \<Rightarrow> nat \<Rightarrow> run list \<times> exn option" where
  "scan_row img y x =
     (if x < size_w img then
        (case getpixel img x y of
           Inl e \<Rightarrow> ([], Some e)
         | Inr (r, g, b, a) \<Rightarrow>
             if a = 0 then scan_row img y (x + 1)
             else
               (case run_end img y (r, g, b, a) (x + 1) of
                  Inl e \<Rightarrow> ([], Some e)
                | Inr x' \<Rightarrow>
                    (let (rs, err) = scan_row img y x'
                     in (\<lparr>run_y = y, run_start = x, run_len = x' - x,
                           run_rgba = (r, g, b, a)\<rparr> # rs, err))))
      else ([], None))"
  by pat_completeness auto
termination
proof (relation "measure (\<lambda>(img, y, x). size_w img - x)", goal_cases)
  case 1
  show ?case by simp
next
  case (2 img y x)
  then show ?case by simp
next
  case (3 img y x p r gba g ba b a x')
  then have "run_end img y (r, g, b, a) (x + 1) = Inr x'" and "x < size_w img"
    by simp_all
  then show ?case
    by (auto dest: run_end_bounds)
qed

declare scan_row.simps [simp del]

text \<open>\<^verbatim>\<open>for y in range(h)\<close>, over the rows still to do.\<close>

fun scan_rows :: "image \<Rightarrow> nat list \<Rightarrow> run list \<times> exn option" where
  "scan_rows img [] = ([], None)"
| "scan_rows img (y # ys) =
     (case scan_row img y 0 of
        (rs, Some e) \<Rightarrow> (rs, Some e)
      | (rs, None) \<Rightarrow> (let (rs', err) = scan_rows img ys in (rs @ rs', err)))"

definition encode :: "image \<Rightarrow> run list \<times> exn option" where
  "encode img = scan_rows img [0..<size_h img]"

text \<open>
  The text of one \<^verbatim>\<open><rect>\<close>: the two or three \<^verbatim>\<open>f.write\<close> calls at the end of
  the loop body. \<^verbatim>\<open>fill_opacity < 1.0\<close> decides whether the attribute is written.
\<close>

definition write_rect :: "run \<Rightarrow> string" where
  \<open>write_rect r =
     (let (run_r, run_g, run_b, run_a) = run_rgba r;
          (fill_hex, fill_opacity) = rgba_to_svg_fill run_r run_g run_b run_a
      in ''  <rect x="'' @ str_nat (run_start r) @ ''" y="'' @ str_nat (run_y r)
           @ ''" width="'' @ str_nat (run_len r) @ ''" height="1" fill="'' @ fill_hex @ ''"''
           @ (if fill_opacity < 1 then '' fill-opacity="'' @ format_6f fill_opacity @ ''"''
              else [])
           @ ''/>\<newline>'')\<close>

text \<open>The two \<^verbatim>\<open>f.write\<close> calls before the loop, and the one after it.\<close>

definition svg_header :: "nat \<Rightarrow> nat \<Rightarrow> string" where
  \<open>svg_header w h =
     ''<?xml version="1.0" encoding="UTF-8"?>\<newline>''
     @ ''<svg xmlns="http://www.w3.org/2000/svg" width="'' @ str_nat w @ ''" height="''
     @ str_nat h @ ''" viewBox="0 0 '' @ str_nat w @ '' '' @ str_nat h @ ''" ''
     @ ''shape-rendering="crispEdges">\<newline>''\<close>

definition svg_footer :: string where
  \<open>svg_footer = ''</svg>\<newline>''\<close>

text \<open>
  Everything \<^verbatim>\<open>image_to_svg_vector\<close> hands to \<^verbatim>\<open>f.write\<close> for an RGBA image, in
  order, and the exception that interrupted it, if any (the footer is written only
  when the loops finish).
\<close>

definition svg_written :: "image \<Rightarrow> string \<times> exn option" where
  "svg_written img =
     (let (rs, err) = encode img
      in (svg_header (size_w img) (size_h img) @ concat (map write_rect rs)
            @ (case err of None \<Rightarrow> svg_footer | Some e \<Rightarrow> []),
          err))"

section \<open>Paths, the file system and the environment\<close>

text \<open>
  \<open>path_name\<close> and \<open>path_stem\<close> are pathlib's \<^verbatim>\<open>name\<close> and \<^verbatim>\<open>stem\<close>: the stem
  cuts the name at its last dot, unless that dot is the first or the last character.
\<close>

definition path_name :: "path \<Rightarrow> string" where
  "path_name p = (if p = [] then [] else last p)"

definition rfind :: "char \<Rightarrow> string \<Rightarrow> nat option" where
  "rfind c s =
     (case filter (\<lambda>i. s ! i = c) (rev [0..<length s]) of [] \<Rightarrow> None | i # _ \<Rightarrow> Some i)"

definition path_stem :: "path \<Rightarrow> string" where
  "path_stem p =
     (let name = path_name p
      in case rfind CHR ''.'' name of
           None \<Rightarrow> name
         | Some i \<Rightarrow> if 0 < i \<and> i < length name - 1 then take i name else name)"

text \<open>
  \<^verbatim>\<open>str(e)\<close> of an exception, which the orchestrator puts into its error entries. For
  an \<^verbatim>\<open>OSError\<close> with a file name it is \<^verbatim>\<open>[Errno N] strerror: 'name'\<close>, the name
  printed by \<^verbatim>\<open>repr\<close>; without a file name it is \<^verbatim>\<open>[Errno N] strerror\<close>. The
  numbers and messages are those of Linux and the path is printed as on POSIX.
  Characters are the code points below 256: \<^verbatim>\<open>repr\<close> quotes with \<^verbatim>\<open>'\<close>, or with
  \<^verbatim>\<open>"\<close> when the string has a \<^verbatim>\<open>'\<close> and no \<^verbatim>\<open>"\<close>, escapes the quote, the
  backslash, tab, newline and carriage return, and writes every other character that
  is not printable as \<^verbatim>\<open>\xNN\<close>.
\<close>

definition fspath :: "path \<Rightarrow> string" where
  "fspath p = (if p = [] then ''/'' else concat (map (\<lambda>part. CHR ''/'' # part) p))"

definition isprintable :: "char \<Rightarrow> bool" where
  "isprintable c =
     (let n = of_char c :: nat in (32 \<le> n \<and> n < 127) \<or> (161 \<le> n \<and> n \<noteq> 173))"

definition repr_char :: "char \<Rightarrow> char \<Rightarrow> string" where
  "repr_char q c =
     (if c = q \<or> c = CHR 0x5C then [CHR 0x5C, c]
      else if c = CHR 0x09 then [CHR 0x5C, CHR ''t'']
      else if c = CHR 0x0A then [CHR 0x5C, CHR ''n'']
      else if c = CHR 0x0D then [CHR 0x5C, CHR ''r'']
      else if isprintable c then [c]
      else [CHR 0x5C, CHR ''x'', ''0123456789abcdef'' ! (of_char c div 16),
            ''0123456789abcdef'' ! (of_char c mod 16)])"

definition py_repr :: "string \<Rightarrow> string" where
  "py_repr s =
     (let q = (if CHR 0x27 \<in> set s \<and> CHR 0x22 \<notin> set s then CHR 0x22 else CHR 0x27)
      in q # concat (map (repr_char q) s) @ [q])"

definition str_OSError :: "nat \<Rightarrow> string \<Rightarrow> path \<Rightarrow> string" where
  "str_OSError errno strerror p =
     ''[Errno '' @ str_nat errno @ ''] '' @ strerror @ '': '' @ py_repr (fspath p)"

fun str_exn :: "exn \<Rightarrow> string" where
  "str_exn IndexError = ''image index out of range''"
| "str_exn (FileNotFoundError p) = str_OSError 2 ''No such file or directory'' p"
| "str_exn (FileExistsError p) = str_OSError 17 ''File exists'' p"
| "str_exn (IsADirectoryError p) = str_OSError 21 ''Is a directory'' p"
| "str_exn (NotADirectoryError p) = str_OSError 20 ''Not a directory'' p"
| "str_exn (PermissionError p) = str_OSError 13 ''Permission denied'' p"
| "str_exn OSError_ENOSPC = ''[Errno 28] No space left on device''"
| "str_exn (OSError_ENOTEMPTY p) = str_OSError 39 ''Directory not empty'' p"
| "str_exn (DecodeError msg) = msg"

text \<open>
  The file system is an association list from paths to nodes: a regular file with its
  content, or a directory. The entries of a directory are the paths one part longer.
\<close>

datatype node = File string | Dir

type_synonym filesys = "(path \<times> node) list"

definition path_exists :: "filesys \<Rightarrow> path \<Rightarrow> bool" where
  "path_exists fs p = (map_of fs p \<noteq> None)"

definition inside :: "path \<Rightarrow> path \<Rightarrow> bool" where
  "inside d p = (p \<noteq> [] \<and> butlast p = d)"

definition entries :: "filesys \<Rightarrow> path \<Rightarrow> path list" where
  "entries fs d = filter (inside d) (remdups (map fst fs))"

text \<open>
  What the program cannot decide is a parameter: the image decoder (Pillow, applied to
  the regular file at a path, with its bytes; its failures include the refusal to open
  the file for reading), and the failures of the operating system: opening a file for
  writing may be refused, the device may take only so many characters of a file
  (\<open>None\<close>: no limit), and creating a directory, listing a directory, deleting a file
  and removing a directory may each be refused.
\<close>

datatype pil_image = PilImage "exn + image"

record os_env =
  decoder :: "path \<Rightarrow> string \<Rightarrow> exn + pil_image"
  open_denied :: "path \<Rightarrow> bool"
  write_limit :: "path \<Rightarrow> nat option"
  mkdir_denied :: "path \<Rightarrow> bool"
  list_denied :: "path \<Rightarrow> bool"
  unlink_denied :: "path \<Rightarrow> bool"
  rmdir_denied :: "path \<Rightarrow> bool"

text \<open>\<^verbatim>\<open>pil_img.convert("RGBA")\<close>: loads the pixel data, which may fail.\<close>

fun convert_RGBA :: "pil_image \<Rightarrow> exn + image" where
  "convert_RGBA (PilImage r) = r"

text \<open>\<^verbatim>\<open>Image.open(src)\<close>.\<close>

definition Image_open :: "os_env \<Rightarrow> filesys \<Rightarrow> path \<Rightarrow> exn + pil_image" where
  "Image_open env fs src =
     (case map_of fs src of
        None \<Rightarrow> Inl (FileNotFoundError src)
      | Some Dir \<Rightarrow> Inl (IsADirectoryError src)
      | Some (File bytes) \<Rightarrow> decoder env src bytes)"

text \<open>
  \<^verbatim>\<open>open(out_path, "w")\<close>: creates the file, or truncates it. It fails on a
  directory, when the parent is missing or is not a directory, and when the operating
  system refuses.
\<close>

definition open_w :: "os_env \<Rightarrow> filesys \<Rightarrow> path \<Rightarrow> exn + filesys" where
  "open_w env fs p =
     (if map_of fs p = Some Dir then Inl (IsADirectoryError p)
      else case map_of fs (butlast p) of
             None \<Rightarrow> Inl (FileNotFoundError p)
           | Some (File c) \<Rightarrow> Inl (NotADirectoryError p)
           | Some Dir \<Rightarrow>
               if open_denied env p then Inl (PermissionError p)
               else Inr (AList.update p (File []) fs))"

text \<open>
  \<^verbatim>\<open>Path.mkdir(exist_ok=True)\<close>: a directory that is there already is left alone,
  whatever the operating system answered; anything else there, a parent that is
  missing or not a directory, and a refusal raise.
\<close>

definition mkdir_exist_ok :: "os_env \<Rightarrow> filesys \<Rightarrow> path \<Rightarrow> exn + filesys" where
  "mkdir_exist_ok env fs d =
     (case map_of fs d of
        Some Dir \<Rightarrow> Inr fs
      | Some (File c) \<Rightarrow> Inl (FileExistsError d)
      | None \<Rightarrow>
          (case map_of fs (butlast d) of
             None \<Rightarrow> Inl (FileNotFoundError d)
           | Some (File c) \<Rightarrow> Inl (NotADirectoryError d)
           | Some Dir \<Rightarrow>
               if mkdir_denied env d then Inl (PermissionError d)
               else Inr (AList.update d Dir fs)))"

text \<open>
  \<^verbatim>\<open>Path.iterdir()\<close>: the entries are listed when the loop starts; listing fails on
  a path that is missing or not a directory, and when the operating system refuses.
\<close>

definition iterdir :: "os_env \<Rightarrow> filesys \<Rightarrow> path \<Rightarrow> exn + path list" where
  "iterdir env fs d =
     (case map_of fs d of
        None \<Rightarrow> Inl (FileNotFoundError d)
      | Some (File c) \<Rightarrow> Inl (NotADirectoryError d)
      | Some Dir \<Rightarrow>
          if list_denied env d then Inl (PermissionError d) else Inr (entries fs d))"

text \<open>
  \<^verbatim>\<open>Path.unlink()\<close> deletes a regular file; \<^verbatim>\<open>Path.rmdir()\<close> removes a directory
  that is empty. Either may be refused by the operating system.
\<close>

definition unlink :: "os_env \<Rightarrow> filesys \<Rightarrow> path \<Rightarrow> exn + filesys" where
  "unlink env fs p =
     (case map_of fs p of
        None \<Rightarrow> Inl (FileNotFoundError p)
      | Some Dir \<Rightarrow> Inl (IsADirectoryError p)
      | Some (File c) \<Rightarrow>
          if unlink_denied env p then Inl (PermissionError p) else Inr (AList.delete p fs))"

definition rmdir :: "os_env \<Rightarrow> filesys \<Rightarrow> path \<Rightarrow> exn + filesys" where
  "rmdir env fs d =
     (case map_of fs d of
        None \<Rightarrow> Inl (FileNotFoundError d)
      | Some (File c) \<Rightarrow> Inl (NotADirectoryError d)
      | Some Dir \<Rightarrow>
          if entries fs d \<noteq> [] then Inl (OSError_ENOTEMPTY d)
          else if rmdir_denied env d then Inl (PermissionError d)
          else Inr (AList.delete d fs))"

section \<open>Writing the SVG file\<close>

text \<open>
  \<^verbatim>\<open>image_to_svg_vector(pil_img, out_path)\<close>: the conversion to RGBA comes first, then
  \<^verbatim>\<open>open(out_path, "w")\<close>, then the writes. The function has no handler and removes
  nothing: when a write fails, the file keeps what the device took. The result is the
  exception raised (\<open>None\<close> when the function returns) and the file system.
\<close>

definition image_to_svg_vector ::
  "os_env \<Rightarrow> filesys \<Rightarrow> pil_image \<Rightarrow> path \<Rightarrow> exn option \<times> filesys" where
  "image_to_svg_vector env fs pil_img out_path =
     (case convert_RGBA pil_img of
        Inl e \<Rightarrow> (Some e, fs)
      | Inr img \<Rightarrow>
          (case open_w env fs out_path of
             Inl e \<Rightarrow> (Some e, fs)
           | Inr fs1 \<Rightarrow>
               (let (txt, err) = svg_written img;
                    stored = (case write_limit env out_path of
                                None \<Rightarrow> txt | Some k \<Rightarrow> take k txt)
                in (if length stored < length txt then Some OSError_ENOSPC else err,
                    AList.update out_path (File stored) fs1))))"

section \<open>The orchestrator\<close>

text \<open>
  The three lists \<^verbatim>\<open>converted\<close>, \<^verbatim>\<open>skipped\<close> and \<^verbatim>\<open>errors\<close> of
  \<^verbatim>\<open>convert_selected\<close>.
\<close>

record summary =
  converted :: "string list"
  skipped :: "string list"
  errors :: "string list"

text \<open>
  The body of the \<^verbatim>\<open>try\<close> for one path: how it ends when nothing is raised, or the
  exception; and the file system it leaves.
\<close>

datatype ending = Missing | AlreadyThere | Written

definition try_convert ::
  "os_env \<Rightarrow> path \<Rightarrow> filesys \<Rightarrow> path \<Rightarrow> (exn + ending) \<times> filesys" where
  "try_convert env OUTPUT_DIR fs src =
     (if \<not> path_exists fs src then (Inr Missing, fs)
      else
        (let out_svg = OUTPUT_DIR @ [path_stem src @ ''.svg'']
         in if path_exists fs out_svg then (Inr AlreadyThere, fs)
            else
              (case Image_open env fs src of
                 Inl e \<Rightarrow> (Inl e, fs)
               | Inr im \<Rightarrow>
                   (case image_to_svg_vector env fs im out_svg of
                      (Some e, fs') \<Rightarrow> (Inl e, fs')
                    | (None, fs') \<Rightarrow> (Inr Written, fs')))))"

text \<open>
  One turn of \<^verbatim>\<open>for p in list(self.selected_paths)\<close>: the \<^verbatim>\<open>try\<close> and its
  \<^verbatim>\<open>except Exception as e\<close>.
\<close>

definition convert_one ::
  "os_env \<Rightarrow> path \<Rightarrow> filesys \<times> summary \<Rightarrow> path \<Rightarrow> filesys \<times> summary" where
  "convert_one env OUTPUT_DIR st src =
     (let (fs, s) = st
      in case try_convert env OUTPUT_DIR fs src of
           (Inr Missing, fs') \<Rightarrow>
             (fs', s\<lparr>errors := errors s @ [path_name src @ '' (missing)'']\<rparr>)
         | (Inr AlreadyThere, fs') \<Rightarrow>
             (fs', s\<lparr>skipped := skipped s @ [path_name src]\<rparr>)
         | (Inr Written, fs') \<Rightarrow>
             (fs', s\<lparr>converted := converted s @ [path_name src]\<rparr>)
         | (Inl e, fs') \<Rightarrow>
             (fs', s\<lparr>errors := errors s @ [path_name src @ '' (error: '' @ str_exn e @ '')'']\<rparr>))"

text \<open>
  \<^verbatim>\<open>convert_selected\<close>: nothing happens on an empty selection;
  \<^verbatim>\<open>OUTPUT_DIR.mkdir(exist_ok=True)\<close> stands outside every \<^verbatim>\<open>try\<close>, so its
  exception leaves the function; then the loop. The selection is cleared at the end.
\<close>

definition convert_selected ::
  "os_env \<Rightarrow> path \<Rightarrow> filesys \<Rightarrow> path list \<Rightarrow> exn + filesys \<times> path list \<times> summary" where
  "convert_selected env OUTPUT_DIR fs selected_paths =
     (if selected_paths = [] then
        Inr (fs, selected_paths, \<lparr>converted = [], skipped = [], errors = []\<rparr>)
      else
        (case mkdir_exist_ok env fs OUTPUT_DIR of
           Inl e \<Rightarrow> Inl e
         | Inr fs1 \<Rightarrow>
             (let (fs', s) = foldl (convert_one env OUTPUT_DIR)
                               (fs1, \<lparr>converted = [], skipped = [], errors = []\<rparr>)
                               selected_paths
              in Inr (fs', [], s))))"

text \<open>
  \<^verbatim>\<open>clear_converted\<close>: each \<^verbatim>\<open>f.unlink()\<close> and the final \<^verbatim>\<open>rmdir()\<close> sit in a
  \<^verbatim>\<open>try\<close> whose handler is \<^verbatim>\<open>pass\<close>; \<^verbatim>\<open>OUTPUT_DIR.iterdir()\<close> does not, so its
  exception leaves the function.
\<close>

definition unlink_or_pass :: "os_env \<Rightarrow> filesys \<Rightarrow> path \<Rightarrow> filesys" where
  "unlink_or_pass env fs f = (case unlink env fs f of Inl e \<Rightarrow> fs | Inr fs' \<Rightarrow> fs')"

definition rmdir_or_pass :: "os_env \<Rightarrow> filesys \<Rightarrow> path \<Rightarrow> filesys" where
  "rmdir_or_pass env fs d = (case rmdir env fs d of Inl e \<Rightarrow> fs | Inr fs' \<Rightarrow> fs')"

datatype cleared = Cleared | NothingToClear

definition clear_converted :: "os_env \<Rightarrow> path \<Rightarrow> filesys \<Rightarrow> (exn + cleared) \<times> filesys" where
  "clear_converted env OUTPUT_DIR fs =
     (if path_exists fs OUTPUT_DIR then
        (case iterdir env fs OUTPUT_DIR of
           Inl e \<Rightarrow> (Inl e, fs)
         | Inr fl \<Rightarrow>
             (Inr Cleared, rmdir_or_pass env (foldl (unlink_or_pass env) fs fl) OUTPUT_DIR))
      else (Inr NothingToClear, fs))"

section \<open>Vocabulary of the properties\<close>

definition alpha :: "pixel \<Rightarrow> channel" where
  "alpha p = snd (snd (snd p))"

text \<open>The columns of a run are \<open>run_start, \<dots>, run_start + run_len - 1\<close>.\<close>

definition covers :: "run \<Rightarrow> nat \<Rightarrow> bool" where
  "covers r x = (run_start r \<le> x \<and> x < run_start r + run_len r)"

text \<open>
  What every run written for row \<open>y\<close> satisfies: it lies in the row, is not empty,
  is not transparent, has the colour of each pixel it covers, and the pixel after it
  (if there is one) has another colour.
\<close>

definition run_ok :: "image \<Rightarrow> nat \<Rightarrow> run \<Rightarrow> bool" where
  "run_ok img y r =
     (run_y r = y \<and> 1 \<le> run_len r \<and> run_start r + run_len r \<le> size_w img \<and>
      alpha (run_rgba r) \<noteq> 0 \<and>
      (\<forall>i. covers r i \<longrightarrow> pixels img (i, y) = run_rgba r) \<and>
      (run_start r + run_len r < size_w img \<longrightarrow>
         pixels img (run_start r + run_len r, y) \<noteq> run_rgba r))"

text \<open>The runs the encoder writes for row \<open>y\<close>, in the order written.\<close>

definition emitted_runs :: "image \<Rightarrow> nat \<Rightarrow> run list" where
  "emitted_runs img y = filter (\<lambda>r. run_y r = y) (fst (encode img))"

text \<open>
  The run invariant of a row: every run has at least one column and ends inside the
  row; each run ends before the next begins (so the runs are in ascending order of
  \<open>run_start\<close> and do not overlap); and every column of the row is either transparent
  and in no run, or not transparent and in exactly one run.
\<close>

definition row_partition :: "image \<Rightarrow> nat \<Rightarrow> run list \<Rightarrow> bool" where
  "row_partition img y rs =
     ((\<forall>r \<in> set rs. 1 \<le> run_len r \<and> run_start r + run_len r \<le> size_w img) \<and>
      sorted_wrt (\<lambda>r1 r2. run_start r1 + run_len r1 \<le> run_start r2) rs \<and>
      (\<forall>x \<in> {0..<size_w img}.
         length (filter (\<lambda>r. covers r x) rs)
           + (if alpha (pixels img (x, y)) = 0 then 1 else 0) = (1::nat)))"

text \<open>
  Two runs are neighbours when they are on the same row and the second begins at the
  column where the first ends. Neighbours could be merged if they had one colour.
\<close>

definition neighbours_differ :: "run list \<Rightarrow> bool" where
  "neighbours_differ rs =
     (\<forall>r1 \<in> set rs. \<forall>r2 \<in> set rs.
        run_y r1 = run_y r2 \<and> run_start r2 = run_start r1 + run_len r1
          \<longrightarrow> run_rgba r1 \<noteq> run_rgba r2)"

text \<open>
  The rectangle attributes in the specification's words: a channel as two upper-case
  hexadecimal digits; the opacity \<open>a / 255\<close> as the nearest multiple of
  \<open>10\<^sup>-\<^sup>6\<close>, written with its six decimal digits.
\<close>

definition hex2 :: "channel \<Rightarrow> string" where
  "hex2 c = [''0123456789ABCDEF'' ! (unat c div 16), ''0123456789ABCDEF'' ! (unat c mod 16)]"

definition millionths :: "nat \<Rightarrow> nat" where
  "millionths a = (2 * a * 1000000 + 255) div 510"

definition six_digits :: "nat \<Rightarrow> string" where
  "six_digits n = map (\<lambda>k. ''0123456789'' ! (n div 10 ^ k mod 10)) [5, 4, 3, 2, 1, 0]"

text \<open>
  Two images are the same pixel input when they have the same dimensions and the same
  RGBA value at every coordinate; they are the same visible input when they have the
  same dimensions and the same alpha everywhere, and the same RGBA value wherever the
  alpha is not 0 (so they may differ in the R, G, B of fully transparent pixels only).
\<close>

definition same_pixels :: "image \<Rightarrow> image \<Rightarrow> bool" where
  "same_pixels a b =
     (size_w a = size_w b \<and> size_h a = size_h b \<and>
      (\<forall>x \<in> {0..<size_w a}. \<forall>y \<in> {0..<size_h a}. pixels a (x, y) = pixels b (x, y)))"

definition same_visible :: "image \<Rightarrow> image \<Rightarrow> bool" where
  "same_visible a b =
     (size_w a = size_w b \<and> size_h a = size_h b \<and>
      (\<forall>x \<in> {0..<size_w a}. \<forall>y \<in> {0..<size_h a}.
         alpha (pixels a (x, y)) = alpha (pixels b (x, y)) \<and>
         (alpha (pixels a (x, y)) \<noteq> 0 \<longrightarrow> pixels a (x, y) = pixels b (x, y))))"

text \<open>Images given by their rows, for the concrete instances below.\<close>

definition image_of_rows :: "nat \<Rightarrow> pixel list list \<Rightarrow> image" where
  "image_of_rows w rows =
     \<lparr>size_w = w, size_h = length rows, pixels = (\<lambda>(x, y). rows ! y ! x)\<rparr>"

definition red :: pixel where
  "red = (255, 0, 0, 255)"

definition green :: pixel where
  "green = (0, 255, 0, 255)"

definition half_blue :: pixel where
  "half_blue = (0, 0, 255, 128)"

definition clear_black :: pixel where
  "clear_black = (0, 0, 0, 0)"

definition clear_red :: pixel where
  "clear_red = (255, 0, 0, 0)"

text \<open>The 3\<times>1 image of the specification's scenario: red, red, green.\<close>

definition img_rrg :: image where
  "img_rrg = image_of_rows 3 [[red, red, green]]"

text \<open>A row with a transparent gap between two runs of one colour.\<close>

definition img_gap :: image where
  "img_gap = image_of_rows 4 [[red, clear_red, red, half_blue]]"

text \<open>Instances for the two relations between images.\<close>

definition img_rrg_fun :: image where
  "img_rrg_fun = \<lparr>size_w = 3, size_h = 1, pixels = (\<lambda>(x, y). if x < 2 then red else green)\<rparr>"

definition img_clear_black :: image where
  "img_clear_black = image_of_rows 2 [[clear_black, red]]"

definition img_clear_red :: image where
  "img_clear_red = image_of_rows 2 [[clear_red, red]]"

text \<open>
  The orchestrator in the specification's words: one outcome per input path, in input
  order. \<open>outcome_of\<close> reads the outcome off the way the \<^verbatim>\<open>try\<close> ended;
  \<open>outcomes\<close> runs the paths one after the other, each on the file system the
  previous one left; \<open>summary_of\<close> sorts the outcomes into the three lists.
\<close>

datatype outcome = Converted string | Skipped string | Error string

definition outcome_of :: "path \<Rightarrow> exn + ending \<Rightarrow> outcome" where
  "outcome_of src r =
     (case r of
        Inr Written \<Rightarrow> Converted (path_name src)
      | Inr AlreadyThere \<Rightarrow> Skipped (path_name src)
      | Inr Missing \<Rightarrow> Error (path_name src @ '' (missing)'')
      | Inl e \<Rightarrow> Error (path_name src @ '' (error: '' @ str_exn e @ '')''))"

fun outcomes :: "os_env \<Rightarrow> path \<Rightarrow> filesys \<Rightarrow> path list \<Rightarrow> outcome list \<times> filesys" where
  "outcomes env OUTPUT_DIR fs [] = ([], fs)"
| "outcomes env OUTPUT_DIR fs (p # ps) =
     (let (r, fs1) = try_convert env OUTPUT_DIR fs p;
          (os, fs2) = outcomes env OUTPUT_DIR fs1 ps
      in (outcome_of p r # os, fs2))"

definition summary_of :: "outcome list \<Rightarrow> summary" where
  "summary_of os =
     \<lparr>converted = [n. Converted n \<leftarrow> os],
      skipped = [n. Skipped n \<leftarrow> os],
      errors = [m. Error m \<leftarrow> os]\<rparr>"

text \<open>The output path of an input path: \<^verbatim>\<open>OUTPUT_DIR / (src.stem + ".svg")\<close>.\<close>

definition out_svg_of :: "path \<Rightarrow> path \<Rightarrow> path" where
  "out_svg_of OUTPUT_DIR src = OUTPUT_DIR @ [path_stem src @ ''.svg'']"

text \<open>
  Decoding an input: \<^verbatim>\<open>Image.open\<close>, then the conversion to RGBA. Either may raise.
\<close>

definition decode :: "os_env \<Rightarrow> filesys \<Rightarrow> path \<Rightarrow> exn + image" where
  "decode env fs src =
     (case Image_open env fs src of Inl e \<Rightarrow> Inl e | Inr im \<Rightarrow> convert_RGBA im)"

text \<open>
  A path the clearing can delete: a regular file whose deletion the operating system
  does not refuse.
\<close>

definition deletable :: "os_env \<Rightarrow> filesys \<Rightarrow> path \<Rightarrow> bool" where
  "deletable env fs q =
     (case map_of fs q of
        Some (File c) \<Rightarrow> \<not> unlink_denied env q
      | Some Dir \<Rightarrow> False
      | None \<Rightarrow> False)"

text \<open>
  A small installation for the concrete instances: the output directory, an input
  \<^verbatim>\<open>a.png\<close>, an input that is gone; a decoder that succeeds, one that fails, a
  device that is full after ten characters, an output directory in which no file can
  be opened for writing; and file systems before any conversion, with a stale output
  whose input is gone, and after one conversion.
\<close>

definition app_output_dir :: path where
  "app_output_dir = [''app'', ''converted_svgs'']"

definition src_a :: path where
  "src_a = [''pics'', ''a.png'']"

definition src_gone :: path where
  "src_gone = [''pics'', ''gone.png'']"

definition out_a :: path where
  "out_a = [''app'', ''converted_svgs'', ''a.svg'']"

definition env_ok :: os_env where
  "env_ok = \<lparr>decoder = (\<lambda>p bytes. Inr (PilImage (Inr img_rrg))), open_denied = (\<lambda>p. False),
             write_limit = (\<lambda>p. None), mkdir_denied = (\<lambda>p. False), list_denied = (\<lambda>p. False),
             unlink_denied = (\<lambda>p. False), rmdir_denied = (\<lambda>p. False)\<rparr>"

definition env_corrupt :: os_env where
  "env_corrupt =
     env_ok\<lparr>decoder :=
       (\<lambda>p bytes. Inl (DecodeError (''cannot identify image file '' @ py_repr (fspath p))))\<rparr>"

definition env_full :: os_env where
  "env_full = env_ok\<lparr>write_limit := (\<lambda>p. Some 10)\<rparr>"

definition env_readonly :: os_env where
  "env_readonly = env_ok\<lparr>open_denied := (\<lambda>p. True)\<rparr>"

definition fs_fresh :: filesys where
  "fs_fresh = [([''app''], Dir), (app_output_dir, Dir), ([''pics''], Dir), (src_a, File ''PNG'')]"

definition fs_stale :: filesys where
  "fs_stale = [([''app''], Dir), (app_output_dir, Dir), (out_a, File ''old'')]"

definition fs_once :: filesys where
  "fs_once = fs_fresh @ [(out_a, File (fst (svg_written img_rrg)))]"

text \<open>
  An output directory holding a file that can be deleted, one whose deletion is
  refused, and a subdirectory with a file in it; an operating system that refuses to
  list the output directory, and one that refuses to remove it.
\<close>

definition env_locked :: os_env where
  "env_locked = env_ok\<lparr>unlink_denied := (\<lambda>p. p = [''app'', ''converted_svgs'', ''locked.svg''])\<rparr>"

definition env_unlistable :: os_env where
  "env_unlistable = env_ok\<lparr>list_denied := (\<lambda>p. p = app_output_dir)\<rparr>"

definition env_pinned :: os_env where
  "env_pinned = env_ok\<lparr>rmdir_denied := (\<lambda>p. p = app_output_dir)\<rparr>"

definition fs_mixed :: filesys where
  "fs_mixed =
     [([''app''], Dir), (app_output_dir, Dir), (out_a, File ''<svg/>''),
      ([''app'', ''converted_svgs'', ''locked.svg''], File ''<svg/>''),
      ([''app'', ''converted_svgs'', ''sub''], Dir),
      ([''app'', ''converted_svgs'', ''sub'', ''deep.svg''], File ''<svg/>'')]"

text \<open>
  The rasterizer of the round-trip property reads the written text back. Its numbers
  are decimal, its colour channels pairs of hexadecimal digits.
\<close>

fun strip_prefix :: "string \<Rightarrow> string \<Rightarrow> string option" where
  "strip_prefix [] s = Some s"
| "strip_prefix (c # cs) [] = None"
| "strip_prefix (c # cs) (d # ds) = (if c = d then strip_prefix cs ds else None)"

definition is_digit :: "char \<Rightarrow> bool" where
  "is_digit c = (c \<in> set ''0123456789'')"

definition digit_val :: "char \<Rightarrow> nat" where
  "digit_val c = length (takeWhile (\<lambda>d. d \<noteq> c) ''0123456789ABCDEF'')"

definition number_of :: "string \<Rightarrow> nat" where
  "number_of ds = foldl (\<lambda>n c. 10 * n + digit_val c) 0 ds"

definition read_nat :: "string \<Rightarrow> (nat \<times> string) option" where
  "read_nat s =
     (let ds = takeWhile is_digit s
      in if ds = [] then None else Some (number_of ds, dropWhile is_digit s))"

definition read_hex2 :: "string \<Rightarrow> (channel \<times> string) option" where
  "read_hex2 s =
     (case s of
        c1 # c2 # rest \<Rightarrow>
          if digit_val c1 < 16 \<and> digit_val c2 < 16
          then Some (of_nat (16 * digit_val c1 + digit_val c2), rest) else None
      | _ \<Rightarrow> None)"

text \<open>
  An opacity \<open>whole.digits\<close> stands for the alpha of \<open>0..255\<close> nearest to 255 times
  it; a rectangle with no \<open>fill-opacity\<close> attribute is opaque.
\<close>

definition opacity_alpha :: "nat \<Rightarrow> string \<Rightarrow> channel" where
  "opacity_alpha whole ds =
     of_nat (min 255 (nat (round_half_even
        (255 * (of_nat whole + of_nat (number_of ds) / 10 ^ length ds)))))"

definition parse_opacity :: "string \<Rightarrow> channel option" where
  \<open>parse_opacity s =
     (if s = ''"/>'' then Some 255
      else case strip_prefix ''" fill-opacity="'' s of
             None \<Rightarrow> None
           | Some s1 \<Rightarrow>
               (case read_nat s1 of
                  None \<Rightarrow> None
                | Some (whole, s2) \<Rightarrow>
                    (case strip_prefix ''.'' s2 of
                       None \<Rightarrow> None
                     | Some s3 \<Rightarrow>
                         if dropWhile is_digit s3 = ''"/>''
                         then Some (opacity_alpha whole (takeWhile is_digit s3))
                         else None)))\<close>

text \<open>
  A \<open><rect>\<close> line read back into the run it stands for, and the line of a run in
  the specification's form (the text of \<open>write_rect\<close> without its newline).
\<close>

definition parse_rect :: "string \<Rightarrow> run option" where
  \<open>parse_rect line =
     (case strip_prefix ''  <rect x="'' line of
        None \<Rightarrow> None
      | Some s1 \<Rightarrow>
     (case read_nat s1 of
        None \<Rightarrow> None
      | Some (x, s2) \<Rightarrow>
     (case strip_prefix ''" y="'' s2 of
        None \<Rightarrow> None
      | Some s3 \<Rightarrow>
     (case read_nat s3 of
        None \<Rightarrow> None
      | Some (y, s4) \<Rightarrow>
     (case strip_prefix ''" width="'' s4 of
        None \<Rightarrow> None
      | Some s5 \<Rightarrow>
     (case read_nat s5 of
        None \<Rightarrow> None
      | Some (n, s6) \<Rightarrow>
     (case strip_prefix ''" height="1" fill="#'' s6 of
        None \<Rightarrow> None
      | Some s7 \<Rightarrow>
     (case read_hex2 s7 of
        None \<Rightarrow> None
      | Some (r, s8) \<Rightarrow>
     (case read_hex2 s8 of
        None \<Rightarrow> None
      | Some (g, s9) \<Rightarrow>
     (case read_hex2 s9 of
        None \<Rightarrow> None
      | Some (b, s10) \<Rightarrow>
     (case parse_opacity s10 of
        None \<Rightarrow> None
      | Some a \<Rightarrow>
          Some \<lparr>run_y = y, run_start = x, run_len = n, run_rgba = (r, g, b, a)\<rparr>)))))))))))\<close>

definition rect_line :: "run \<Rightarrow> string" where
  \<open>rect_line r =
     (case run_rgba r of (cr, cg, cb, ca) \<Rightarrow>
        ''  <rect x="'' @ str_nat (run_start r) @ ''" y="'' @ str_nat (run_y r)
          @ ''" width="'' @ str_nat (run_len r) @ ''" height="1" fill="#''
          @ hex2 cr @ hex2 cg @ hex2 cb @ ''"''
          @ (if ca = 255 then [] else '' fill-opacity="0.'' @ six_digits (millionths (unat ca)) @ ''"'')
          @ ''/>'')\<close>

text \<open>
  The lines of a text, each ended by a newline, and the \<open><svg>\<close> line, from which the
  rasterizer takes the dimensions.
\<close>

primrec split_lines :: "string \<Rightarrow> string list" where
  "split_lines [] = []"
| "split_lines (c # cs) =
     (if c = CHR ''\<newline>'' then [] # split_lines cs
      else (case split_lines cs of [] \<Rightarrow> [[c]] | l # ls \<Rightarrow> (c # l) # ls))"

definition open_line :: "nat \<Rightarrow> nat \<Rightarrow> string" where
  \<open>open_line w h =
     ''<svg xmlns="http://www.w3.org/2000/svg" width="'' @ str_nat w @ ''" height="''
     @ str_nat h @ ''" viewBox="0 0 '' @ str_nat w @ '' '' @ str_nat h @ ''" ''
     @ ''shape-rendering="crispEdges">''\<close>

definition parse_svg_open :: "string \<Rightarrow> (nat \<times> nat) option" where
  \<open>parse_svg_open line =
     (case strip_prefix ''<svg xmlns="http://www.w3.org/2000/svg" width="'' line of
        None \<Rightarrow> None
      | Some s1 \<Rightarrow>
     (case read_nat s1 of
        None \<Rightarrow> None
      | Some (w, s2) \<Rightarrow>
     (case strip_prefix ''" height="'' s2 of
        None \<Rightarrow> None
      | Some s3 \<Rightarrow>
     (case read_nat s3 of
        None \<Rightarrow> None
      | Some (h, s4) \<Rightarrow> Some (w, h)))))\<close>

text \<open>
  Rasterizing: every rectangle, one pixel high, paints its columns of its row with its
  fill colour and alpha, later rectangles over earlier ones, on a buffer that is
  \<open>(0, 0, 0, 0)\<close> (alpha 0) wherever no rectangle lies.
\<close>

definition paint :: "run list \<Rightarrow> nat \<times> nat \<Rightarrow> pixel" where
  "paint rects =
     (\<lambda>(x, y). case find (\<lambda>r. run_y r = y \<and> covers r x) (rev rects) of
                 None \<Rightarrow> (0, 0, 0, 0)
               | Some r \<Rightarrow> run_rgba r)"

definition rasterize_svg :: "string \<Rightarrow> image option" where
  "rasterize_svg doc =
     (case split_lines doc of
        decl # opening # body \<Rightarrow>
          (case parse_svg_open opening of
             None \<Rightarrow> None
           | Some (w, h) \<Rightarrow>
               Some \<lparr>size_w = w, size_h = h,
                      pixels = paint (List.map_filter parse_rect body)\<rparr>)
      | _ \<Rightarrow> None)"

text \<open>
  \<open>raster_of\<close> paints the encoder's runs directly. \<open>visible_part\<close> is an image with
  every fully transparent pixel replaced by \<open>(0, 0, 0, 0)\<close>, and \<open>transparent_black\<close>
  holds of the images whose fully transparent pixels are \<open>(0, 0, 0, 0)\<close> already.
\<close>

definition raster_of :: "image \<Rightarrow> image" where
  "raster_of img = \<lparr>size_w = size_w img, size_h = size_h img, pixels = paint (fst (encode img))\<rparr>"

definition visible_part :: "image \<Rightarrow> image" where
  "visible_part img =
     img\<lparr>pixels := (\<lambda>p. if alpha (pixels img p) = 0 then (0, 0, 0, 0) else pixels img p)\<rparr>"

definition transparent_black :: "image \<Rightarrow> bool" where
  "transparent_black img =
     (\<forall>x \<in> {0..<size_w img}. \<forall>y \<in> {0..<size_h img}.
        alpha (pixels img (x, y)) = 0 \<longrightarrow> pixels img (x, y) = (0, 0, 0, 0))"

text \<open>
  A row with an opaque, a fully transparent black and a half transparent pixel.
\<close>

definition img_round :: image where
  "img_round = image_of_rows 3 [[red, clear_black, half_blue]]"

section \<open>The scan of a row\<close>

lemma getpixel_in_range:
  "x < size_w img \<Longrightarrow> y < size_h img \<Longrightarrow> getpixel img x y = Inr (pixels img (x, y))"
  by (simp add: getpixel_def)

lemma run_end_total:
  assumes "y < size_h img"
  shows "\<exists>x'. run_end img y c x = Inr x' \<and> x \<le> x' \<and> x' \<le> max x (size_w img) \<and>
           (\<forall>i. x \<le> i \<and> i < x' \<longrightarrow> pixels img (i, y) = c) \<and>
           (x' < size_w img \<longrightarrow> pixels img (x', y) \<noteq> c)"
proof (induction "size_w img - x" arbitrary: x rule: less_induct)
  case less
  show ?case
  proof (cases "x < size_w img \<and> pixels img (x, y) = c")
    case False
    then have "run_end img y c x = Inr x"
      using assms by (auto simp: run_end.simps[of img y c x] getpixel_def)
    with False show ?thesis by auto
  next
    case True
    then have step: "run_end img y c x = run_end img y c (x + 1)"
      using assms by (simp add: run_end.simps[of img y c x] getpixel_def)
    from True have "size_w img - (x + 1) < size_w img - x" by auto
    from less[OF this] obtain x' where x': "run_end img y c (x + 1) = Inr x'"
      "x + 1 \<le> x'" "x' \<le> max (x + 1) (size_w img)"
      "\<forall>i. x + 1 \<le> i \<and> i < x' \<longrightarrow> pixels img (i, y) = c"
      "x' < size_w img \<longrightarrow> pixels img (x', y) \<noteq> c"
      by blast
    have "\<forall>i. x \<le> i \<and> i < x' \<longrightarrow> pixels img (i, y) = c"
    proof (intro allI impI)
      fix i assume "x \<le> i \<and> i < x'"
      then have "i = x \<or> (x + 1 \<le> i \<and> i < x')" by auto
      with True x'(4) show "pixels img (i, y) = c" by blast
    qed
    with step x' True show ?thesis by auto
  qed
qed

lemma scan_row_inv:
  assumes "y < size_h img"
  shows "snd (scan_row img y x) = None \<and>
         (\<forall>r \<in> set (fst (scan_row img y x)). run_ok img y r \<and> x \<le> run_start r) \<and>
         sorted_wrt (\<lambda>r1 r2. run_start r1 + run_len r1 \<le> run_start r2) (fst (scan_row img y x)) \<and>
         (\<forall>i. x \<le> i \<and> i < size_w img \<and> alpha (pixels img (i, y)) \<noteq> 0 \<longrightarrow>
              (\<exists>r \<in> set (fst (scan_row img y x)). covers r i))"
proof (induction "size_w img - x" arbitrary: x rule: less_induct)
  case less
  show ?case
  proof (cases "x < size_w img")
    case False
    then have "scan_row img y x = ([], None)"
      by (simp add: scan_row.simps[of img y x])
    with False show ?thesis by simp
  next
    case True
    obtain r g b a where p: "pixels img (x, y) = (r, g, b, a)"
      by (metis prod_cases4)
    show ?thesis
    proof (cases "a = 0")
      case True
      with \<open>x < size_w img\<close> p assms have step: "scan_row img y x = scan_row img y (x + 1)"
        by (simp add: scan_row.simps[of img y x] getpixel_def)
      from \<open>x < size_w img\<close> have "size_w img - (x + 1) < size_w img - x" by simp
      note IH = less[OF this]
      have "\<forall>i. x \<le> i \<and> i < size_w img \<and> alpha (pixels img (i, y)) \<noteq> 0 \<longrightarrow>
              (\<exists>r \<in> set (fst (scan_row img y (x + 1))). covers r i)"
      proof (intro allI impI)
        fix i assume i: "x \<le> i \<and> i < size_w img \<and> alpha (pixels img (i, y)) \<noteq> 0"
        with p True have "i \<noteq> x" by (auto simp: alpha_def)
        with i have "x + 1 \<le> i" by simp
        with i IH show "\<exists>r \<in> set (fst (scan_row img y (x + 1))). covers r i" by blast
      qed
      moreover have "\<forall>r \<in> set (fst (scan_row img y (x + 1))). run_ok img y r \<and> x \<le> run_start r"
        using IH by auto
      ultimately show ?thesis using IH step by simp
    next
      case False
      from run_end_total[OF assms, of "(r, g, b, a)" "x + 1"]
      obtain x' where x': "run_end img y (r, g, b, a) (x + 1) = Inr x'"
        "x + 1 \<le> x'" "x' \<le> max (x + 1) (size_w img)"
        "\<forall>i. x + 1 \<le> i \<and> i < x' \<longrightarrow> pixels img (i, y) = (r, g, b, a)"
        "x' < size_w img \<longrightarrow> pixels img (x', y) \<noteq> (r, g, b, a)"
        by blast
      define r0 where "r0 = \<lparr>run_y = y, run_start = x, run_len = x' - x, run_rgba = (r, g, b, a)\<rparr>"
      from \<open>x < size_w img\<close> p assms False x'(1)
      have step: "scan_row img y x = (r0 # fst (scan_row img y x'), snd (scan_row img y x'))"
        by (simp add: scan_row.simps[of img y x] getpixel_def r0_def split: prod.splits)
      from \<open>x < size_w img\<close> x'(2) have "size_w img - x' < size_w img - x" by simp
      note IH = less[OF this]
      have x'w: "x' \<le> size_w img" using x'(3) \<open>x < size_w img\<close> by simp
      have cov: "\<forall>i. x \<le> i \<and> i < x' \<longrightarrow> pixels img (i, y) = (r, g, b, a)"
      proof (intro allI impI)
        fix i assume "x \<le> i \<and> i < x'"
        then have "i = x \<or> (x + 1 \<le> i \<and> i < x')" by auto
        with p x'(4) show "pixels img (i, y) = (r, g, b, a)" by blast
      qed
      have r0_ok: "run_ok img y r0"
        using x'(2) x'w False cov x'(5) by (auto simp: run_ok_def r0_def alpha_def covers_def)
      have sorted: "\<forall>r \<in> set (fst (scan_row img y x')). run_start r0 + run_len r0 \<le> run_start r"
        using IH x'(2) by (auto simp: r0_def)
      have all: "\<forall>i. x \<le> i \<and> i < size_w img \<and> alpha (pixels img (i, y)) \<noteq> 0 \<longrightarrow>
              (\<exists>r \<in> set (r0 # fst (scan_row img y x')). covers r i)"
      proof (intro allI impI)
        fix i assume i: "x \<le> i \<and> i < size_w img \<and> alpha (pixels img (i, y)) \<noteq> 0"
        show "\<exists>r \<in> set (r0 # fst (scan_row img y x')). covers r i"
        proof (cases "i < x'")
          case True
          with i have "covers r0 i" using x'(2) by (auto simp: covers_def r0_def)
          then show ?thesis by simp
        next
          case False
          with i IH show ?thesis by auto
        qed
      qed
      have lower: "\<forall>r \<in> set (fst (scan_row img y x')). run_ok img y r \<and> x \<le> run_start r"
        using IH x'(2) by auto
      show ?thesis
        using step IH r0_ok sorted all lower by (simp add: r0_def)
    qed
  qed
qed

lemma scan_rows_eq:
  "\<forall>y \<in> set ys. y < size_h img \<Longrightarrow>
   scan_rows img ys = (concat (map (\<lambda>y. fst (scan_row img y 0)) ys), None)"
proof (induction ys)
  case Nil
  show ?case by simp
next
  case (Cons y ys)
  then have "y < size_h img" by simp
  from scan_row_inv[OF this, of 0] have "snd (scan_row img y 0) = None" by simp
  then obtain rs where rs: "scan_row img y 0 = (rs, None)"
    by (cases "scan_row img y 0") simp
  from Cons have "scan_rows img ys = (concat (map (\<lambda>y. fst (scan_row img y 0)) ys), None)"
    by simp
  with rs show ?case by simp
qed

lemma encode_eq:
  "encode img = (concat (map (\<lambda>y. fst (scan_row img y 0)) [0..<size_h img]), None)"
  unfolding encode_def by (rule scan_rows_eq) simp

lemma filter_row_concat:
  assumes "\<forall>y' \<in> set ys. \<forall>r \<in> set (f y'). run_y r = y'" and "distinct ys" and "y \<in> set ys"
  shows "filter (\<lambda>r. run_y r = y) (concat (map f ys)) = f y"
  using assms
proof (induction ys)
  case Nil
  then show ?case by simp
next
  case (Cons a ys)
  show ?case
  proof (cases "a = y")
    case True
    with Cons.prems have "y \<notin> set ys" by simp
    with Cons.prems have "\<forall>y' \<in> set ys. \<forall>r \<in> set (f y'). run_y r \<noteq> y"
      by auto
    then have "filter (\<lambda>r. run_y r = y) (concat (map f ys)) = []"
      by (auto simp: filter_empty_conv)
    moreover from Cons.prems True have "filter (\<lambda>r. run_y r = y) (f a) = f y"
      by (auto simp: filter_id_conv)
    ultimately show ?thesis by simp
  next
    case False
    with Cons.prems have "filter (\<lambda>r. run_y r = y) (f a) = []"
      by (auto simp: filter_empty_conv)
    moreover from False Cons have "filter (\<lambda>r. run_y r = y) (concat (map f ys)) = f y"
      by simp
    ultimately show ?thesis by simp
  qed
qed

lemma emitted_runs_eq:
  assumes "y < size_h img"
  shows "emitted_runs img y = fst (scan_row img y 0)"
proof -
  have "\<forall>y' \<in> set [0..<size_h img]. \<forall>r \<in> set (fst (scan_row img y' 0)). run_y r = y'"
    using scan_row_inv[of _ img 0] by (auto simp: run_ok_def)
  from filter_row_concat[OF this, of y] assms show ?thesis
    by (simp add: emitted_runs_def encode_eq)
qed

lemma covers_at_most_once:
  "sorted_wrt (\<lambda>r1 r2. run_start r1 + run_len r1 \<le> run_start r2) rs \<Longrightarrow>
   length (filter (\<lambda>r. covers r x) rs) \<le> 1"
proof (induction rs)
  case Nil
  show ?case by simp
next
  case (Cons r rs)
  show ?case
  proof (cases "covers r x")
    case True
    with Cons.prems have "\<forall>r' \<in> set rs. \<not> covers r' x"
      by (auto simp: covers_def)
    then have "filter (\<lambda>r. covers r x) rs = []"
      by (simp add: filter_empty_conv)
    with True show ?thesis by simp
  next
    case False
    with Cons show ?thesis by simp
  qed
qed

lemma scan_row_partition:
  assumes "y < size_h img"
  shows "row_partition img y (fst (scan_row img y 0))"
proof -
  let ?rs = "fst (scan_row img y 0)"
  note inv = scan_row_inv[OF assms, of 0]
  have ok: "\<forall>r \<in> set ?rs. run_ok img y r" using inv by blast
  have srt: "sorted_wrt (\<lambda>r1 r2. run_start r1 + run_len r1 \<le> run_start r2) ?rs"
    using inv by blast
  have "length (filter (\<lambda>r. covers r x) ?rs)
           + (if alpha (pixels img (x, y)) = 0 then 1 else 0) = (1::nat)"
    if "x < size_w img" for x
  proof (cases "alpha (pixels img (x, y)) = 0")
    case True
    have "\<forall>r \<in> set ?rs. \<not> covers r x"
    proof
      fix r assume "r \<in> set ?rs"
      with ok have "run_ok img y r" by blast
      with True show "\<not> covers r x" by (auto simp: run_ok_def)
    qed
    then have "filter (\<lambda>r. covers r x) ?rs = []" by (simp add: filter_empty_conv)
    with True show ?thesis by simp
  next
    case False
    with inv that obtain r where "r \<in> set ?rs" "covers r x" by auto
    then have "filter (\<lambda>r. covers r x) ?rs \<noteq> []" by (auto simp: filter_empty_conv)
    then have "1 \<le> length (filter (\<lambda>r. covers r x) ?rs)"
      by (cases "filter (\<lambda>r. covers r x) ?rs") simp_all
    with covers_at_most_once[OF srt, of x] False show ?thesis by simp
  qed
  with ok srt show ?thesis
    by (auto simp: row_partition_def run_ok_def)
qed

lemma encode_runs_ok:
  assumes "r \<in> set (fst (encode img))"
  shows "run_y r < size_h img \<and> run_ok img (run_y r) r"
proof -
  from assms obtain y where y: "y < size_h img" "r \<in> set (fst (scan_row img y 0))"
    by (auto simp: encode_eq)
  with scan_row_inv[OF y(1), of 0] have "run_ok img y r" by blast
  with y show ?thesis by (auto simp: run_ok_def)
qed

section \<open>The run invariant (C2)\<close>

text \<open>
  C2. For every image and every row \<open>y\<close> of it, the runs the encoder emits for row
  \<open>y\<close> each have length at least 1, are in ascending order of \<open>run_start\<close> and do
  not overlap (each ends at or before the start of every later one), stay inside
  \<open>[0, w)\<close>, and together with the columns whose pixel has alpha 0 cover every column
  of \<open>[0, w)\<close> exactly once: a transparent column is in no run, any other column is in
  exactly one.
\<close>

theorem emitted_runs_partition_row:
  "y < size_h img \<Longrightarrow> row_partition img y (emitted_runs img y)"
  by (simp add: emitted_runs_eq scan_row_partition)

theorem emitted_runs_partition_row_witness:
  "(0::nat) < size_h img_gap \<and> row_partition img_gap 0 (emitted_runs img_gap 0)"
  using emitted_runs_partition_row[of 0 img_gap]
  by (simp add: img_gap_def image_of_rows_def)

section \<open>Run maximality (C3)\<close>

text \<open>
  C3. For every image, no two adjacent emitted runs on the same row have the same
  RGBA colour. Adjacent means that the second run begins at the column where the first
  ends, so that the two could have been one run; two runs of one colour separated by
  transparent columns are not adjacent (\<open>img_gap\<close> has such a pair).
\<close>

theorem adjacent_runs_differ:
  "neighbours_differ (fst (encode img))"
  unfolding neighbours_differ_def
proof (intro ballI impI)
  fix r1 r2
  assume r1: "r1 \<in> set (fst (encode img))" and r2: "r2 \<in> set (fst (encode img))"
    and adj: "run_y r1 = run_y r2 \<and> run_start r2 = run_start r1 + run_len r1"
  from encode_runs_ok[OF r1] have ok1: "run_ok img (run_y r1) r1" by simp
  from encode_runs_ok[OF r2] have ok2: "run_ok img (run_y r2) r2" by simp
  from ok2 have "covers r2 (run_start r2)" by (simp add: run_ok_def covers_def)
  with ok2 have px: "pixels img (run_start r2, run_y r2) = run_rgba r2"
    by (simp add: run_ok_def)
  from ok2 have "run_start r2 < size_w img" by (simp add: run_ok_def)
  with adj ok1 have "pixels img (run_start r2, run_y r2) \<noteq> run_rgba r1"
    by (simp add: run_ok_def)
  with px show "run_rgba r1 \<noteq> run_rgba r2" by simp
qed

theorem adjacent_runs_differ_witness:
  "fst (encode img_gap) =
     [\<lparr>run_y = 0, run_start = 0, run_len = 1, run_rgba = red\<rparr>,
      \<lparr>run_y = 0, run_start = 2, run_len = 1, run_rgba = red\<rparr>,
      \<lparr>run_y = 0, run_start = 3, run_len = 1, run_rgba = half_blue\<rparr>]
   \<and> neighbours_differ (fst (encode img_gap))"
proof -
  have "fst (encode img_gap) =
     [\<lparr>run_y = 0, run_start = 0, run_len = 1, run_rgba = red\<rparr>,
      \<lparr>run_y = 0, run_start = 2, run_len = 1, run_rgba = red\<rparr>,
      \<lparr>run_y = 0, run_start = 3, run_len = 1, run_rgba = half_blue\<rparr>]"
    by code_simp
  with adjacent_runs_differ[of img_gap] show ?thesis
    by simp
qed

section \<open>What the text depends on (C6, C10)\<close>

lemma same_pixels_visible:
  assumes "same_pixels a b"
  shows "same_visible a b"
proof -
  from assms have sz: "size_w a = size_w b" "size_h a = size_h b"
    and px: "\<forall>x \<in> {0..<size_w a}. \<forall>y \<in> {0..<size_h a}. pixels a (x, y) = pixels b (x, y)"
    unfolding same_pixels_def by blast+
  have "\<forall>x \<in> {0..<size_w a}. \<forall>y \<in> {0..<size_h a}.
         alpha (pixels a (x, y)) = alpha (pixels b (x, y)) \<and>
         (alpha (pixels a (x, y)) \<noteq> 0 \<longrightarrow> pixels a (x, y) = pixels b (x, y))"
  proof (intro ballI)
    fix x y assume "x \<in> {0..<size_w a}" "y \<in> {0..<size_h a}"
    with px have "pixels a (x, y) = pixels b (x, y)" by blast
    then show "alpha (pixels a (x, y)) = alpha (pixels b (x, y)) \<and>
         (alpha (pixels a (x, y)) \<noteq> 0 \<longrightarrow> pixels a (x, y) = pixels b (x, y))"
      by simp
  qed
  with sz show ?thesis unfolding same_visible_def by blast
qed

lemma same_visible_sizes:
  "same_visible a b \<Longrightarrow> size_w b = size_w a \<and> size_h b = size_h a"
  unfolding same_visible_def by (elim conjE) simp

lemma same_visible_pixel:
  assumes "same_visible a b" and "x < size_w a" and "y < size_h a"
  shows "alpha (pixels a (x, y)) = alpha (pixels b (x, y)) \<and>
         (alpha (pixels a (x, y)) \<noteq> 0 \<longrightarrow> pixels a (x, y) = pixels b (x, y))"
proof -
  from assms(1) have "\<forall>x \<in> {0..<size_w a}. \<forall>y \<in> {0..<size_h a}.
         alpha (pixels a (x, y)) = alpha (pixels b (x, y)) \<and>
         (alpha (pixels a (x, y)) \<noteq> 0 \<longrightarrow> pixels a (x, y) = pixels b (x, y))"
    unfolding same_visible_def by (elim conjE)
  moreover from assms(2,3) have "x \<in> {0..<size_w a}" "y \<in> {0..<size_h a}"
    by simp_all
  ultimately show ?thesis by blast
qed

lemma getpixel_outside:
  "\<not> (x < size_w img \<and> y < size_h img) \<Longrightarrow> getpixel img x y = Inl IndexError"
  by (simp add: getpixel_def)

lemma run_end_outside:
  "\<not> (x < size_w img \<and> y < size_h img) \<Longrightarrow>
   run_end img y c x = (if x < size_w img then Inl IndexError else Inr x)"
  by (subst run_end.simps) (simp add: getpixel_outside)

lemma run_end_step:
  "x < size_w img \<Longrightarrow> y < size_h img \<Longrightarrow>
   run_end img y c x = (if pixels img (x, y) = c then run_end img y c (x + 1) else Inr x)"
  by (subst run_end.simps) (simp add: getpixel_in_range)

lemma scan_row_outside:
  "\<not> (x < size_w img \<and> y < size_h img) \<Longrightarrow>
   scan_row img y x = (if x < size_w img then ([], Some IndexError) else ([], None))"
  by (subst scan_row.simps) (simp add: getpixel_outside)

lemma scan_row_clear:
  assumes "x < size_w img" and "y < size_h img" and "alpha (pixels img (x, y)) = 0"
  shows "scan_row img y x = scan_row img y (x + 1)"
proof -
  obtain r g b a where p: "pixels img (x, y) = (r, g, b, a)"
    by (metis prod_cases4)
  with assms(3) have "a = 0" by (simp add: alpha_def)
  with assms(1,2) p show ?thesis
    by (subst scan_row.simps) (simp add: getpixel_in_range)
qed

lemma scan_row_run:
  assumes "x < size_w img" and "y < size_h img" and "alpha (pixels img (x, y)) \<noteq> 0"
  shows "scan_row img y x =
     (case run_end img y (pixels img (x, y)) (x + 1) of
        Inl e \<Rightarrow> ([], Some e)
      | Inr x' \<Rightarrow>
          (\<lparr>run_y = y, run_start = x, run_len = x' - x, run_rgba = pixels img (x, y)\<rparr>
             # fst (scan_row img y x'),
           snd (scan_row img y x')))"
proof -
  obtain r g b a where p: "pixels img (x, y) = (r, g, b, a)"
    by (metis prod_cases4)
  with assms(3) have "a \<noteq> 0" by (simp add: alpha_def)
  with assms(1,2) p show ?thesis
    by (subst scan_row.simps)
       (simp add: getpixel_in_range split: sum.splits prod.splits)
qed

lemma run_end_visible:
  assumes "same_visible a b" and "alpha c \<noteq> 0"
  shows "run_end a y c x = run_end b y c x"
proof (induction "size_w a - x" arbitrary: x rule: less_induct)
  case less
  from same_visible_sizes[OF assms(1)] have w: "size_w b = size_w a" and h: "size_h b = size_h a"
    by simp_all
  show ?case
  proof (cases "x < size_w a \<and> y < size_h a")
    case False
    then have "\<not> (x < size_w b \<and> y < size_h b)" by (simp add: w h)
    from run_end_outside[OF False] run_end_outside[OF this] show ?thesis
      by (simp add: w)
  next
    case True
    then have xa: "x < size_w a" "y < size_h a" and xb: "x < size_w b" "y < size_h b"
      by (simp_all add: w h)
    from same_visible_pixel[OF assms(1) xa]
    have px: "alpha (pixels a (x, y)) = alpha (pixels b (x, y))"
      "alpha (pixels a (x, y)) \<noteq> 0 \<longrightarrow> pixels a (x, y) = pixels b (x, y)"
      by blast+
    with assms(2) have eq: "pixels a (x, y) = c \<longleftrightarrow> pixels b (x, y) = c"
      by metis
    from xa have "size_w a - (x + 1) < size_w a - x" by simp
    from less[OF this] have IH: "run_end a y c (x + 1) = run_end b y c (x + 1)" .
    have "run_end a y c x = (if pixels a (x, y) = c then run_end a y c (x + 1) else Inr x)"
      using xa by (rule run_end_step)
    moreover
    have "run_end b y c x = (if pixels b (x, y) = c then run_end b y c (x + 1) else Inr x)"
      using xb by (rule run_end_step)
    ultimately show ?thesis
      using eq IH by simp
  qed
qed

lemma scan_row_visible:
  assumes "same_visible a b"
  shows "scan_row a y x = scan_row b y x"
proof (induction "size_w a - x" arbitrary: x rule: less_induct)
  case less
  from same_visible_sizes[OF assms(1)] have w: "size_w b = size_w a" and h: "size_h b = size_h a"
    by simp_all
  show ?case
  proof (cases "x < size_w a \<and> y < size_h a")
    case False
    then have "\<not> (x < size_w b \<and> y < size_h b)" by (simp add: w h)
    from scan_row_outside[OF False] scan_row_outside[OF this] show ?thesis
      by (simp add: w)
  next
    case True
    then have xa: "x < size_w a" "y < size_h a" and xb: "x < size_w b" "y < size_h b"
      by (simp_all add: w h)
    from same_visible_pixel[OF assms(1) xa]
    have px: "alpha (pixels a (x, y)) = alpha (pixels b (x, y))"
      "alpha (pixels a (x, y)) \<noteq> 0 \<longrightarrow> pixels a (x, y) = pixels b (x, y)"
      by blast+
    from xa have lt: "size_w a - (x + 1) < size_w a - x" by simp
    show ?thesis
    proof (cases "alpha (pixels a (x, y)) = 0")
      case zero: True
      with px have zero': "alpha (pixels b (x, y)) = 0" by simp
      from less[OF lt] have "scan_row a y (x + 1) = scan_row b y (x + 1)" .
      with scan_row_clear[OF xa zero] scan_row_clear[OF xb zero'] show ?thesis
        by simp
    next
      case nz: False
      with px have same: "pixels b (x, y) = pixels a (x, y)" by simp
      with nz have nz': "alpha (pixels b (x, y)) \<noteq> 0" by simp
      note re = run_end_visible[OF assms nz, of y "x + 1"]
      note A = scan_row_run[OF xa nz]
      note B = scan_row_run[OF xb nz', unfolded same]
      show ?thesis
      proof (cases "run_end a y (pixels a (x, y)) (x + 1)")
        case (Inl e)
        with re have "run_end b y (pixels a (x, y)) (x + 1) = Inl e" by simp
        with Inl A B show ?thesis by simp
      next
        case (Inr x')
        with re have reb: "run_end b y (pixels a (x, y)) (x + 1) = Inr x'" by simp
        from run_end_bounds[OF Inr] xa have "size_w a - x' < size_w a - x" by auto
        from less[OF this] have "scan_row a y x' = scan_row b y x'" .
        with Inr reb A B show ?thesis by simp
      qed
    qed
  qed
qed

lemma scan_rows_visible:
  assumes "same_visible a b"
  shows "scan_rows a ys = scan_rows b ys"
proof (induction ys)
  case Nil
  show ?case by simp
next
  case (Cons y ys)
  from scan_row_visible[OF assms, of y 0] Cons show ?case
    by simp
qed

lemma svg_written_visible:
  assumes "same_visible a b"
  shows "svg_written a = svg_written b"
proof -
  from same_visible_sizes[OF assms] have "size_w b = size_w a" "size_h b = size_h a"
    by simp_all
  moreover from this scan_rows_visible[OF assms] have "encode a = encode b"
    by (simp add: encode_def)
  ultimately show ?thesis by (simp add: svg_written_def)
qed

text \<open>
  C6. Given identical pixel input (the same dimensions and the same RGBA value at every
  coordinate of the image), the converter writes the same text, byte for byte, and
  ends the same way. Nothing else of the decoded image is read.
\<close>

theorem identical_pixels_identical_svg:
  "same_pixels a b \<Longrightarrow> svg_written a = svg_written b"
  by (rule svg_written_visible) (rule same_pixels_visible)

theorem identical_pixels_identical_svg_witness:
  "same_pixels img_rrg img_rrg_fun \<and> svg_written img_rrg = svg_written img_rrg_fun"
proof -
  have "same_pixels img_rrg img_rrg_fun"
    by (simp add: same_pixels_def img_rrg_def img_rrg_fun_def image_of_rows_def
          atLeastLessThan_upt upt_rec red_def green_def)
  with identical_pixels_identical_svg[of img_rrg img_rrg_fun] show ?thesis
    by simp
qed

text \<open>
  C10. The R, G and B channels of fully transparent pixels never influence the output:
  two images of equal dimensions that differ only in the R, G or B of pixels whose
  alpha is 0 give the same text.
\<close>

theorem transparent_rgb_ignored:
  "same_visible a b \<Longrightarrow> svg_written a = svg_written b"
  by (rule svg_written_visible)

theorem transparent_rgb_ignored_witness:
  "same_visible img_clear_black img_clear_red
   \<and> pixels img_clear_black (0, 0) \<noteq> pixels img_clear_red (0, 0)
   \<and> svg_written img_clear_black = svg_written img_clear_red"
proof -
  have "same_visible img_clear_black img_clear_red"
    by (simp add: same_visible_def img_clear_black_def img_clear_red_def image_of_rows_def
          atLeastLessThan_upt upt_rec alpha_def clear_black_def clear_red_def red_def)
  moreover have "pixels img_clear_black (0, 0) \<noteq> pixels img_clear_red (0, 0)"
    by (simp add: img_clear_black_def img_clear_red_def image_of_rows_def
          clear_black_def clear_red_def)
  ultimately show ?thesis
    using transparent_rgb_ignored[of img_clear_black img_clear_red] by simp
qed

section \<open>Fill colour and opacity of a rectangle (C4)\<close>

lemma digit_char_0: "digit_char 0 = CHR ''0''"
  by (simp add: digit_char_def)

lemma str_nat_digit: "n < 10 \<Longrightarrow> str_nat n = [digit_char n]"
  by (simp add: str_nat_def digits_of.simps[of 10 n])

lemma zfill_digits_step:
  assumes "2 \<le> b" and "1 \<le> k"
  shows "zfill (Suc k) (digits_of b n) = zfill k (digits_of b (n div b)) @ [digit_char (n mod b)]"
proof (cases "n < b")
  case True
  with assms have "digits_of b n = [digit_char n]" "digits_of b (n div b) = [CHR ''0'']"
    by (simp_all add: digits_of.simps[of b n] digits_of.simps[of b 0] digit_char_0)
  moreover from assms(2) have "replicate k CHR ''0'' = replicate (k - 1) CHR ''0'' @ [CHR ''0'']"
    by (cases k) (simp_all add: replicate_append_same)
  ultimately show ?thesis
    using True by (simp add: zfill_def)
next
  case False
  with assms have "digits_of b n = digits_of b (n div b) @ [digit_char (n mod b)]"
    by (simp add: digits_of.simps[of b n])
  then show ?thesis
    by (simp add: zfill_def)
qed

lemma zfill_one_digit:
  assumes "2 \<le> b" and "n < b"
  shows "zfill 1 (digits_of b n) = [digit_char n]"
  using assms by (simp add: zfill_def digits_of.simps[of b n])

lemma format_02X_hex2: "format_02X (unat (c :: channel)) = hex2 c"
proof -
  have "unat c < 256" using unsigned_less[of c, where ?'a = nat] by simp
  then have small: "unat c div 16 < 16" by simp
  have "zfill (Suc 1) (digits_of 16 (unat c))
          = zfill 1 (digits_of 16 (unat c div 16)) @ [digit_char (unat c mod 16)]"
    by (rule zfill_digits_step) simp_all
  also have "zfill 1 (digits_of 16 (unat c div 16)) = [digit_char (unat c div 16)]"
    using small by (intro zfill_one_digit) simp_all
  finally show ?thesis
    by (simp add: format_02X_def hex2_def digit_char_def numeral_2_eq_2)
qed

lemma unat_channel_less: "unat (c :: channel) < 256"
  using unsigned_less[of c, where ?'a = nat] by simp

lemma round_half_even_unique:
  assumes "\<bar>x - of_int N\<bar> < 1 / 2"
  shows "round_half_even x = N"
proof (cases "of_int N \<le> x")
  case True
  with assms have "x < of_int N + 1" by linarith
  with True have fl: "\<lfloor>x\<rfloor> = N" by linarith
  from assms True have "x - of_int N < 1 / 2" by linarith
  with fl show ?thesis by (simp add: round_half_even_def Let_def)
next
  case False
  with assms have lo: "of_int (N - 1) < x" and hi: "x < of_int N" by simp_all
  then have fl: "\<lfloor>x\<rfloor> = N - 1" by linarith
  from assms False have "1 / 2 < x - of_int (N - 1)" by simp
  then have "\<not> x - of_int (N - 1) < 1 / 2" by linarith
  with fl \<open>1 / 2 < x - of_int (N - 1)\<close> show ?thesis
    by (simp add: round_half_even_def Let_def)
qed

lemma millionths_near:
  "\<bar>(of_nat a :: rat) * 1000000 / 255 - of_int (int (millionths a))\<bar> \<le> 127 / 255"
proof -
  define p where "p = int a * 1000000"
  define N where "N = (2 * p + 255) div 510"
  define r where "r = (2 * p + 255) mod 510"
  have N: "int (millionths a) = N"
    by (simp add: millionths_def N_def p_def zdiv_int)
  have split: "2 * p + 255 = 510 * N + r"
    by (simp add: N_def r_def)
  have "r mod 2 = (2 * p + 255) mod 2"
    unfolding r_def by (rule mod_mod_cancel) simp
  also have "\<dots> = 1" by presburger
  finally have odd: "r mod 2 = 1" .
  have "0 \<le> r" "r < 510" by (simp_all add: r_def)
  with odd have "1 \<le> r" "r \<le> 509" by presburger+
  with split have lo: "- 127 \<le> p - 255 * N" and hi: "p - 255 * N \<le> 127"
    by linarith+
  from lo have "(of_int (- 127) :: rat) \<le> of_int (p - 255 * N)"
    by (simp only: of_int_le_iff)
  moreover from hi have "(of_int (p - 255 * N) :: rat) \<le> of_int 127"
    by (simp only: of_int_le_iff)
  ultimately have "\<bar>(of_int p :: rat) - 255 * of_int N\<bar> \<le> 127"
    by (simp add: abs_le_iff)
  then have "\<bar>(of_int p :: rat) / 255 - of_int N\<bar> \<le> 127 / 255"
    by (simp add: field_simps abs_le_iff)
  moreover have "(of_nat a :: rat) * 1000000 = of_int p"
    by (simp add: p_def)
  ultimately show ?thesis
    by (simp add: N)
qed

lemma digit_char_decimal:
  assumes "d < 10"
  shows "digit_char d = ''0123456789'' ! d"
proof -
  from assms have "d = 0 \<or> d = 1 \<or> d = 2 \<or> d = 3 \<or> d = 4
      \<or> d = 5 \<or> d = 6 \<or> d = 7 \<or> d = 8 \<or> d = 9"
    by arith
  then show ?thesis
    by (elim disjE) (simp_all add: digit_char_def)
qed

lemma zfill_decimal_step:
  assumes "1 \<le> k"
  shows "zfill (Suc k) (str_nat n) = zfill k (str_nat (n div 10)) @ [''0123456789'' ! (n mod 10)]"
proof -
  have "zfill (Suc k) (digits_of 10 n) = zfill k (digits_of 10 (n div 10)) @ [digit_char (n mod 10)]"
    using assms by (intro zfill_digits_step) simp_all
  then show ?thesis
    by (simp add: str_nat_def digit_char_decimal)
qed

lemma zfill_six_digits:
  assumes "n < 1000000"
  shows "zfill 6 (str_nat n) = six_digits n"
proof -
  let ?d = "\<lambda>m. ''0123456789'' ! (m mod 10)"
  have d1: "n div 10 div 10 = n div 100" and d2: "n div 100 div 10 = n div 1000"
    and d3: "n div 1000 div 10 = n div 10000" and d4: "n div 10000 div 10 = n div 100000"
    by (simp_all add: div_mult2_eq[symmetric])
  have "zfill 6 (str_nat n) = zfill 5 (str_nat (n div 10)) @ [?d n]"
    using zfill_decimal_step[of 5 n] by simp
  also have "zfill 5 (str_nat (n div 10)) = zfill 4 (str_nat (n div 100)) @ [?d (n div 10)]"
    using zfill_decimal_step[of 4 "n div 10"] by (simp add: d1)
  also have "zfill 4 (str_nat (n div 100)) = zfill 3 (str_nat (n div 1000)) @ [?d (n div 100)]"
    using zfill_decimal_step[of 3 "n div 100"] by (simp add: d2)
  also have "zfill 3 (str_nat (n div 1000)) = zfill 2 (str_nat (n div 10000)) @ [?d (n div 1000)]"
    using zfill_decimal_step[of 2 "n div 1000"] by (simp add: d3)
  also have "zfill 2 (str_nat (n div 10000)) = zfill 1 (str_nat (n div 100000)) @ [?d (n div 10000)]"
    using zfill_decimal_step[of 1 "n div 10000"] by (simp add: d4 numeral_2_eq_2)
  also have "zfill 1 (str_nat (n div 100000)) = [?d (n div 100000)]"
  proof -
    from assms have small: "n div 100000 < 10" by simp
    then have "zfill 1 (digits_of 10 (n div 100000)) = [digit_char (n div 100000)]"
      by (intro zfill_one_digit) simp_all
    with small show ?thesis
      by (simp add: str_nat_def digit_char_decimal)
  qed
  finally show ?thesis
    by (simp add: six_digits_def)
qed

lemma millionths_less:
  assumes "a < 255"
  shows "millionths a < 1000000"
  using assms unfolding millionths_def by arith

lemma format_6f_stable:
  assumes "a < 255" and "0 \<le> q" and "\<bar>q - of_nat a / 255\<bar> \<le> 1 / 1000000000"
  shows "format_6f q = ''0.'' @ six_digits (millionths a)"
proof -
  have "q * 1000000 - of_nat a * 1000000 / 255 = (q - of_nat a / 255) * 1000000"
    by (simp add: algebra_simps)
  then have "\<bar>q * 1000000 - of_nat a * 1000000 / 255\<bar> = \<bar>q - of_nat a / 255\<bar> * 1000000"
    by (simp only: abs_mult abs_numeral)
  with assms(3) have "\<bar>q * 1000000 - of_nat a * 1000000 / 255\<bar> \<le> 1 / 1000"
    by simp
  with millionths_near[of a]
  have "\<bar>q * 1000000 - of_int (int (millionths a))\<bar> < 1 / 2"
    by linarith
  then have "round_half_even (q * 1000000) = int (millionths a)"
    by (rule round_half_even_unique)
  with assms(2) have "nat (round_half_even (\<bar>q\<bar> * 1000000)) = millionths a"
    by simp
  moreover from assms(2) have "\<not> q < 0" by simp
  moreover have "str_nat 0 = ''0''"
    by (simp add: str_nat_def digits_of.simps[of 10 0] digit_char_def)
  ultimately show ?thesis
    using millionths_less[OF assms(1)]
    by (simp add: format_6f_def Let_def zfill_six_digits)
qed

lemma format_6f_alpha:
  assumes "a < 255"
  shows "format_6f (of_nat a / 255) = ''0.'' @ six_digits (millionths a)"
  using assms by (intro format_6f_stable) simp_all

lemma millionths_accurate:
  "\<bar>(of_nat (millionths a) :: rat) / 1000000 - of_nat a / 255\<bar> < 1 / 2000000"
proof -
  have "(of_nat (millionths a) :: rat) / 1000000 - of_nat a / 255
          = - ((of_nat a * 1000000 / 255 - of_int (int (millionths a))) / 1000000)"
    by (simp add: field_simps)
  then have "\<bar>(of_nat (millionths a) :: rat) / 1000000 - of_nat a / 255\<bar>
          = \<bar>of_nat a * 1000000 / 255 - of_int (int (millionths a))\<bar> / 1000000"
    by (simp only: abs_minus abs_divide abs_numeral)
  with millionths_near[of a] show ?thesis
    by simp
qed

lemma channel_255: "(a :: channel) = 255 \<longleftrightarrow> unat a = 255"
  by (simp add: word_unat_eq_iff)

lemma write_rect_text:
  \<open>write_rect \<lparr>run_y = y, run_start = x, run_len = n, run_rgba = (r, g, b, a)\<rparr> =
     ''  <rect x="'' @ str_nat x @ ''" y="'' @ str_nat y @ ''" width="'' @ str_nat n
       @ ''" height="1" fill="#'' @ hex2 r @ hex2 g @ hex2 b @ ''"''
       @ (if a = 255 then [] else '' fill-opacity="0.'' @ six_digits (millionths (unat a)) @ ''"'')
       @ ''/>\<newline>''\<close>
proof (cases "a = 255")
  case True
  then show ?thesis
    by (simp add: write_rect_def rgba_to_svg_fill_def format_02X_hex2)
next
  case False
  have le: "unat a \<le> 255" using unat_channel_less[of a] by simp
  with False have lt: "unat a < 255" by (simp add: channel_255)
  then have "(of_nat (unat a) :: rat) < of_nat 255" by (simp only: of_nat_less_iff)
  then have "(of_nat (unat a) :: rat) / 255 < 1" by simp
  with False format_6f_alpha[OF lt] show ?thesis
    by (simp add: write_rect_def rgba_to_svg_fill_def format_02X_hex2)
qed

text \<open>
  C4. The rectangle of a run has \<open>fill="#RRGGBB"\<close>, six upper-case hexadecimal digits
  from the run's R, G and B channels. When the run's alpha is exactly 255 there is no
  \<open>fill-opacity\<close> attribute; otherwise the attribute is \<open>0.\<close> followed by exactly
  six decimal digits, those of the multiple of \<open>10\<^sup>-\<^sup>6\<close> nearest to \<open>alpha / 255\<close>
  (less than half a millionth away). For alpha 128 the digits are \<open>501961\<close>.
\<close>

theorem rect_fill_and_opacity:
  \<open>write_rect \<lparr>run_y = y, run_start = x, run_len = n, run_rgba = (r, g, b, a)\<rparr> =
     ''  <rect x="'' @ str_nat x @ ''" y="'' @ str_nat y @ ''" width="'' @ str_nat n
       @ ''" height="1" fill="#'' @ hex2 r @ hex2 g @ hex2 b @ ''"''
       @ (if a = 255 then [] else '' fill-opacity="0.'' @ six_digits (millionths (unat a)) @ ''"'')
       @ ''/>\<newline>''
   \<and> \<bar>(of_nat (millionths (unat a)) :: rat) / 1000000 - of_nat (unat a) / 255\<bar> < 1 / 2000000
   \<and> six_digits (millionths (unat (128 :: channel))) = ''501961''\<close>
proof (intro conjI)
  show "\<bar>(of_nat (millionths (unat a)) :: rat) / 1000000 - of_nat (unat a) / 255\<bar> < 1 / 2000000"
    by (rule millionths_accurate)
  show "six_digits (millionths (unat (128 :: channel))) = ''501961''"
    by (simp add: six_digits_def millionths_def)
  show \<open>write_rect \<lparr>run_y = y, run_start = x, run_len = n, run_rgba = (r, g, b, a)\<rparr> =
     ''  <rect x="'' @ str_nat x @ ''" y="'' @ str_nat y @ ''" width="'' @ str_nat n
       @ ''" height="1" fill="#'' @ hex2 r @ hex2 g @ hex2 b @ ''"''
       @ (if a = 255 then [] else '' fill-opacity="0.'' @ six_digits (millionths (unat a)) @ ''"'')
       @ ''/>\<newline>''\<close>
    by (rule write_rect_text)
qed

theorem rect_fill_and_opacity_witness:
  \<open>write_rect \<lparr>run_y = 0, run_start = 0, run_len = 1, run_rgba = half_blue\<rparr> =
     ''  <rect x="0" y="0" width="1" height="1" fill="#0000FF" fill-opacity="0.501961"/>\<newline>''
   \<and> write_rect \<lparr>run_y = 0, run_start = 2, run_len = 1, run_rgba = green\<rparr> =
     ''  <rect x="2" y="0" width="1" height="1" fill="#00FF00"/>\<newline>''\<close>
proof -
  have s: "str_nat 0 = ''0''" "str_nat (Suc 0) = ''1''" "str_nat 2 = ''2''"
    by (simp_all add: str_nat_digit digit_char_def)
  have h: "hex2 0 = ''00''" "hex2 255 = ''FF''"
    by (simp_all add: hex2_def)
  from rect_fill_and_opacity[of 0 0 1 0 0 255 128] rect_fill_and_opacity[of 0 2 1 0 255 0 255]
  show ?thesis
    by (simp add: s h half_blue_def green_def)
qed

section \<open>One path of the batch\<close>

lemma convert_one_outcome:
  "convert_one env D (fs, s) p =
     (snd (try_convert env D fs p),
      s\<lparr>converted := converted s @ converted (summary_of [outcome_of p (fst (try_convert env D fs p))]),
        skipped := skipped s @ skipped (summary_of [outcome_of p (fst (try_convert env D fs p))]),
        errors := errors s @ errors (summary_of [outcome_of p (fst (try_convert env D fs p))])\<rparr>)"
proof (cases "try_convert env D fs p")
  case (Pair r fs')
  show ?thesis
  proof (cases r)
    case (Inl e)
    with Pair show ?thesis
      by (simp add: convert_one_def outcome_of_def summary_of_def)
  next
    case (Inr en)
    with Pair show ?thesis
      by (cases en) (simp_all add: convert_one_def outcome_of_def summary_of_def)
  qed
qed

lemma summary_of_Cons:
  "summary_of (x # os) =
     \<lparr>converted = converted (summary_of [x]) @ converted (summary_of os),
      skipped = skipped (summary_of [x]) @ skipped (summary_of os),
      errors = errors (summary_of [x]) @ errors (summary_of os)\<rparr>"
  by (cases x) (simp_all add: summary_of_def)

lemma foldl_convert_one:
  "foldl (convert_one env D) (fs, s) ps =
     (snd (outcomes env D fs ps),
      \<lparr>converted = converted s @ converted (summary_of (fst (outcomes env D fs ps))),
       skipped = skipped s @ skipped (summary_of (fst (outcomes env D fs ps))),
       errors = errors s @ errors (summary_of (fst (outcomes env D fs ps)))\<rparr>)"
proof (induction ps arbitrary: fs s)
  case Nil
  show ?case by (simp add: summary_of_def)
next
  case (Cons p ps)
  obtain r fs1 where t: "try_convert env D fs p = (r, fs1)"
    by (cases "try_convert env D fs p")
  obtain os fs2 where o: "outcomes env D fs1 ps = (os, fs2)"
    by (cases "outcomes env D fs1 ps")
  have "foldl (convert_one env D) (fs, s) (p # ps)
          = foldl (convert_one env D) (convert_one env D (fs, s) p) ps"
    by simp
  also have "convert_one env D (fs, s) p =
     (fs1,
      s\<lparr>converted := converted s @ converted (summary_of [outcome_of p r]),
        skipped := skipped s @ skipped (summary_of [outcome_of p r]),
        errors := errors s @ errors (summary_of [outcome_of p r])\<rparr>)"
    using convert_one_outcome[of env D fs s p] t by simp
  finally show ?case
    using Cons.IH[of fs1] t o
    by (simp add: summary_of_Cons[of "outcome_of p r" os])
qed

lemma length_outcomes: "length (fst (outcomes env D fs ps)) = length ps"
proof (induction ps arbitrary: fs)
  case Nil
  show ?case by simp
next
  case (Cons p ps)
  obtain r fs1 where t: "try_convert env D fs p = (r, fs1)"
    by (cases "try_convert env D fs p")
  obtain os fs2 where o: "outcomes env D fs1 ps = (os, fs2)"
    by (cases "outcomes env D fs1 ps")
  from Cons[of fs1] o have "length os = length ps" by simp
  with t o show ?case by simp
qed

lemma svg_written_ok: "snd (svg_written img) = None"
  by (simp add: svg_written_def encode_eq)

lemma path_exists_update:
  "path_exists (AList.update p v fs) q \<longleftrightarrow> q = p \<or> path_exists fs q"
  by (simp add: path_exists_def update_conv')

text \<open>The ways \<open>image_to_svg_vector\<close> can end.\<close>

lemma image_to_svg_vector_cases:
  assumes "image_to_svg_vector env fs im out = (r, fs')"
  shows "(r \<noteq> None \<and> fs' = fs \<and> (convert_RGBA im = Inl (the r) \<or>
             (\<exists>img. convert_RGBA im = Inr img \<and> open_w env fs out = Inl (the r))))
       \<or> (\<exists>img fs1 k. convert_RGBA im = Inr img \<and> open_w env fs out = Inr fs1 \<and>
             write_limit env out = Some k \<and> k < length (fst (svg_written img)) \<and>
             r = Some OSError_ENOSPC \<and>
             fs' = AList.update out (File (take k (fst (svg_written img)))) fs1)
       \<or> (\<exists>img fs1. convert_RGBA im = Inr img \<and> open_w env fs out = Inr fs1 \<and>
             r = None \<and> fs' = AList.update out (File (fst (svg_written img))) fs1)"
proof (cases "convert_RGBA im")
  case (Inl e)
  with assms show ?thesis by (auto simp: image_to_svg_vector_def)
next
  case (Inr img)
  show ?thesis
  proof (cases "open_w env fs out")
    case (Inl e)
    with Inr assms show ?thesis by (auto simp: image_to_svg_vector_def)
  next
    case fs1: (Inr fs1)
    obtain body where body: "svg_written img = (body, None)"
      using svg_written_ok[of img] by (cases "svg_written img") simp
    show ?thesis
    proof (cases "write_limit env out")
      case None
      with Inr fs1 body assms show ?thesis
        by (auto simp: image_to_svg_vector_def)
    next
      case (Some k)
      show ?thesis
      proof (cases "k < length body")
        case True
        with Some Inr fs1 body assms show ?thesis
          by (auto simp: image_to_svg_vector_def)
      next
        case False
        with Some Inr fs1 body assms show ?thesis
          by (auto simp: image_to_svg_vector_def)
      qed
    qed
  qed
qed

lemma try_convert_missing:
  "\<not> path_exists fs src \<Longrightarrow> try_convert env D fs src = (Inr Missing, fs)"
  by (simp add: try_convert_def)

lemma try_convert_skip:
  "path_exists fs src \<Longrightarrow> path_exists fs (out_svg_of D src) \<Longrightarrow>
   try_convert env D fs src = (Inr AlreadyThere, fs)"
  by (simp add: try_convert_def out_svg_of_def)

lemma open_w_Inr:
  "open_w env fs p = Inr fs1 \<Longrightarrow>
   fs1 = AList.update p (File []) fs \<and> map_of fs (butlast p) = Some Dir"
  by (auto simp: open_w_def split: if_splits option.splits node.splits)

lemma try_convert_raised:
  assumes "try_convert env D fs src = (Inl e, fs')"
  shows "path_exists fs src" and "\<not> path_exists fs (out_svg_of D src)"
    and "case decode env fs src of
           Inl d \<Rightarrow> e = d \<and> fs' = fs
         | Inr img \<Rightarrow>
             (case open_w env fs (out_svg_of D src) of
                Inl d \<Rightarrow> e = d \<and> fs' = fs
              | Inr fs1 \<Rightarrow>
                  (\<exists>k. write_limit env (out_svg_of D src) = Some k \<and>
                       e = OSError_ENOSPC \<and> k < length (fst (svg_written img)) \<and>
                       map_of fs' (out_svg_of D src)
                         = Some (File (take k (fst (svg_written img)))) \<and>
                       (\<forall>p. p \<noteq> out_svg_of D src \<longrightarrow> map_of fs' p = map_of fs p)))"
proof -
  from assms show ex: "path_exists fs src"
    by (auto simp: try_convert_def Let_def split: if_splits)
  from assms ex show nex: "\<not> path_exists fs (out_svg_of D src)"
    by (auto simp: try_convert_def out_svg_of_def Let_def split: if_splits)
  let ?out = "out_svg_of D src"
  show "case decode env fs src of
           Inl d \<Rightarrow> e = d \<and> fs' = fs
         | Inr img \<Rightarrow>
             (case open_w env fs ?out of
                Inl d \<Rightarrow> e = d \<and> fs' = fs
              | Inr fs1 \<Rightarrow>
                  (\<exists>k. write_limit env ?out = Some k \<and>
                       e = OSError_ENOSPC \<and> k < length (fst (svg_written img)) \<and>
                       map_of fs' ?out = Some (File (take k (fst (svg_written img)))) \<and>
                       (\<forall>p. p \<noteq> ?out \<longrightarrow> map_of fs' p = map_of fs p)))"
  proof (cases "Image_open env fs src")
    case (Inl e0)
    with assms ex nex show ?thesis
      by (simp add: try_convert_def out_svg_of_def decode_def)
  next
    case (Inr im)
    obtain r fs2 where v: "image_to_svg_vector env fs im ?out = (r, fs2)"
      by (cases "image_to_svg_vector env fs im ?out")
    with assms ex nex Inr have r: "r = Some e" and fs2: "fs2 = fs'"
      by (auto simp: try_convert_def out_svg_of_def split: option.splits)
    from Inr have dec: "decode env fs src = convert_RGBA im"
      by (simp add: decode_def)
    from image_to_svg_vector_cases[OF v] r fs2
    consider (early) "fs' = fs" "convert_RGBA im = Inl e"
      | (refused) img where "fs' = fs" "convert_RGBA im = Inr img" "open_w env fs ?out = Inl e"
      | (partial) img fs1 k where "convert_RGBA im = Inr img" "open_w env fs ?out = Inr fs1"
          "write_limit env ?out = Some k" "k < length (fst (svg_written img))"
          "e = OSError_ENOSPC" "fs' = AList.update ?out (File (take k (fst (svg_written img)))) fs1"
      by auto
    then show ?thesis
    proof cases
      case early
      then show ?thesis by (simp add: dec)
    next
      case refused
      then show ?thesis by (simp add: dec)
    next
      case partial
      from open_w_Inr[OF partial(2)] have "fs1 = AList.update ?out (File []) fs"
        by simp
      with partial show ?thesis
        by (simp add: dec update_conv')
    qed
  qed
qed

lemma try_convert_written:
  assumes "try_convert env D fs src = (Inr Written, fs')"
  shows "path_exists fs' src" and "path_exists fs' (out_svg_of D src)"
    and "map_of fs' D = Some Dir"
    and "\<exists>im img. Image_open env fs src = Inr im \<and> convert_RGBA im = Inr img \<and>
           map_of fs' (out_svg_of D src) = Some (File (fst (svg_written img)))"
proof -
  let ?out = "out_svg_of D src"
  from assms have ex: "path_exists fs src"
    by (auto simp: try_convert_def Let_def split: if_splits)
  from assms ex have nex: "\<not> path_exists fs ?out"
    by (auto simp: try_convert_def out_svg_of_def Let_def split: if_splits)
  from assms ex nex obtain im where im: "Image_open env fs src = Inr im"
    by (cases "Image_open env fs src") (auto simp: try_convert_def out_svg_of_def)
  obtain r fs2 where v: "image_to_svg_vector env fs im ?out = (r, fs2)"
    by (cases "image_to_svg_vector env fs im ?out")
  with assms ex nex im have r: "r = None" and fs2: "fs2 = fs'"
    by (auto simp: try_convert_def out_svg_of_def split: option.splits)
  from image_to_svg_vector_cases[OF v] r fs2
  obtain img fs1 where img: "convert_RGBA im = Inr img" and o: "open_w env fs ?out = Inr fs1"
    and fs': "fs' = AList.update ?out (File (fst (svg_written img))) fs1"
    by auto
  from open_w_Inr[OF o]
  have fs1: "fs1 = AList.update ?out (File []) fs" and par: "map_of fs (butlast ?out) = Some Dir"
    by simp_all
  from ex fs' fs1 show "path_exists fs' src"
    by (simp add: path_exists_update)
  from fs' show "path_exists fs' ?out"
    by (simp add: path_exists_update)
  have "D \<noteq> ?out" by (simp add: out_svg_of_def)
  with par fs' fs1 show "map_of fs' D = Some Dir"
    by (simp add: update_conv' out_svg_of_def)
  from im img fs' show "\<exists>im img. Image_open env fs src = Inr im \<and> convert_RGBA im = Inr img \<and>
           map_of fs' ?out = Some (File (fst (svg_written img)))"
    by (auto simp: update_conv')
qed

lemma rfind_examples:
  "rfind CHR ''.'' ''a.png'' = Some 1" "rfind CHR ''.'' ''gone.png'' = Some 4"
  by (simp_all add: rfind_def upt_rec)

lemma stem_a: "path_stem src_a = ''a''" "path_name src_a = ''a.png''"
  "path_stem src_gone = ''gone''" "path_name src_gone = ''gone.png''"
  by (simp_all add: path_stem_def path_name_def rfind_examples src_a_def src_gone_def)

lemma out_svg_a: "out_svg_of app_output_dir src_a = out_a"
  by (simp add: out_svg_of_def stem_a app_output_dir_def out_a_def)

lemma svg_written_pair: "svg_written img = (fst (svg_written img), None)"
  using svg_written_ok[of img] by (cases "svg_written img") simp

lemma image_to_svg_vector_unlimited:
  assumes "convert_RGBA im = Inr img" and "open_w env fs out = Inr fs1"
    and "write_limit env out = None"
  shows "image_to_svg_vector env fs im out =
           (None, AList.update out (File (fst (svg_written img))) fs1)"
proof -
  obtain body where body: "svg_written img = (body, None)"
    using svg_written_ok[of img] by (cases "svg_written img") simp
  with assms show ?thesis
    by (simp add: image_to_svg_vector_def)
qed

lemma try_fresh_ok: "try_convert env_ok app_output_dir fs_fresh src_a = (Inr Written, fs_once)"
proof -
  have ex: "path_exists fs_fresh src_a"
    by (simp add: path_exists_def fs_fresh_def src_a_def app_output_dir_def)
  have nex: "\<not> path_exists fs_fresh out_a"
    by (simp add: path_exists_def fs_fresh_def src_a_def app_output_dir_def out_a_def)
  have io: "Image_open env_ok fs_fresh src_a = Inr (PilImage (Inr img_rrg))"
    by (simp add: Image_open_def fs_fresh_def src_a_def app_output_dir_def env_ok_def)
  have ow: "open_w env_ok fs_fresh out_a = Inr (fs_fresh @ [(out_a, File [])])"
    by (simp add: open_w_def fs_fresh_def src_a_def app_output_dir_def out_a_def env_ok_def)
  have wl: "write_limit env_ok out_a = None"
    by (simp add: env_ok_def)
  have "image_to_svg_vector env_ok fs_fresh (PilImage (Inr img_rrg)) out_a =
          (None, AList.update out_a (File (fst (svg_written img_rrg))) (fs_fresh @ [(out_a, File [])]))"
    using ow wl by (intro image_to_svg_vector_unlimited) simp_all
  also have "AList.update out_a (File (fst (svg_written img_rrg))) (fs_fresh @ [(out_a, File [])])
               = fs_once"
    by (simp add: fs_once_def fs_fresh_def src_a_def app_output_dir_def out_a_def)
  finally show ?thesis
    using ex nex io out_svg_a by (simp add: try_convert_def out_svg_of_def)
qed

lemma svg_written_starts:
  \<open>\<exists>rest. fst (svg_written img) = ''<?xml vers'' @ rest \<and> rest \<noteq> []\<close>
  by (simp add: svg_written_def encode_eq svg_header_def)

lemma try_full: "try_convert env_full app_output_dir fs_fresh src_a
    = (Inl OSError_ENOSPC, fs_fresh @ [(out_a, File ''<?xml vers'')])"
proof -
  have ex: "path_exists fs_fresh src_a"
    by (simp add: path_exists_def fs_fresh_def src_a_def app_output_dir_def)
  have nex: "\<not> path_exists fs_fresh out_a"
    by (simp add: path_exists_def fs_fresh_def src_a_def app_output_dir_def out_a_def)
  have io: "Image_open env_full fs_fresh src_a = Inr (PilImage (Inr img_rrg))"
    by (simp add: Image_open_def fs_fresh_def src_a_def app_output_dir_def env_ok_def env_full_def)
  have ow: "open_w env_full fs_fresh out_a = Inr (fs_fresh @ [(out_a, File [])])"
    by (simp add: open_w_def fs_fresh_def src_a_def app_output_dir_def out_a_def env_ok_def
          env_full_def)
  obtain rest where rest: "fst (svg_written img_rrg) = ''<?xml vers'' @ rest" "rest \<noteq> []"
    using svg_written_starts by blast
  then have body: "svg_written img_rrg = (''<?xml vers'' @ rest, None)"
    using svg_written_pair[of img_rrg] by simp
  have "image_to_svg_vector env_full fs_fresh (PilImage (Inr img_rrg)) out_a =
          (Some OSError_ENOSPC,
           AList.update out_a (File ''<?xml vers'') (fs_fresh @ [(out_a, File [])]))"
  proof -
    have wl: "write_limit env_full out_a = Some 10"
      by (simp add: env_full_def env_ok_def)
    show ?thesis
      using rest(2) by (simp add: image_to_svg_vector_def ow body wl)
  qed
  also have "AList.update out_a (File ''<?xml vers'') (fs_fresh @ [(out_a, File [])])
               = fs_fresh @ [(out_a, File ''<?xml vers'')]"
    by (simp add: fs_fresh_def src_a_def app_output_dir_def out_a_def)
  finally show ?thesis
    using ex nex io out_svg_a by (simp add: try_convert_def out_svg_of_def)
qed

lemma repr_examples:
  "py_repr (fspath src_a) = CHR 0x27 # ''/pics/a.png'' @ [CHR 0x27]"
  "py_repr (fspath out_a) = CHR 0x27 # ''/app/converted_svgs/a.svg'' @ [CHR 0x27]"
  by (simp_all add: py_repr_def fspath_def repr_char_def isprintable_def src_a_def out_a_def
        Let_def)

lemma str_nat_13: "str_nat 13 = ''13''"
  by (simp add: str_nat_def digits_of.simps[of 10 13] digits_of.simps[of 10 "Suc 0"]
        digit_char_def)

lemma try_corrupt: "try_convert env_corrupt app_output_dir fs_fresh src_a
    = (Inl (DecodeError (''cannot identify image file '' @ py_repr (fspath src_a))), fs_fresh)"
proof -
  have ex: "path_exists fs_fresh src_a"
    by (simp add: path_exists_def fs_fresh_def src_a_def app_output_dir_def)
  have nex: "\<not> path_exists fs_fresh out_a"
    by (simp add: path_exists_def fs_fresh_def src_a_def app_output_dir_def out_a_def)
  have "map_of fs_fresh src_a = Some (File ''PNG'')"
    by (simp add: fs_fresh_def src_a_def app_output_dir_def)
  then have io: "Image_open env_corrupt fs_fresh src_a
              = Inl (DecodeError (''cannot identify image file '' @ py_repr (fspath src_a)))"
    by (simp add: Image_open_def env_ok_def env_corrupt_def)
  show ?thesis
    using ex nex io out_svg_a by (simp add: try_convert_def out_svg_of_def)
qed

lemma try_readonly: "try_convert env_readonly app_output_dir fs_fresh src_a
    = (Inl (PermissionError out_a), fs_fresh)"
proof -
  have ex: "path_exists fs_fresh src_a"
    by (simp add: path_exists_def fs_fresh_def src_a_def app_output_dir_def)
  have nex: "\<not> path_exists fs_fresh out_a"
    by (simp add: path_exists_def fs_fresh_def src_a_def app_output_dir_def out_a_def)
  have io: "Image_open env_readonly fs_fresh src_a = Inr (PilImage (Inr img_rrg))"
    by (simp add: Image_open_def fs_fresh_def src_a_def app_output_dir_def env_ok_def
          env_readonly_def)
  have ow: "open_w env_readonly fs_fresh out_a = Inl (PermissionError out_a)"
    by (simp add: open_w_def fs_fresh_def src_a_def app_output_dir_def out_a_def env_ok_def
          env_readonly_def)
  have "image_to_svg_vector env_readonly fs_fresh (PilImage (Inr img_rrg)) out_a
          = (Some (PermissionError out_a), fs_fresh)"
    by (simp add: image_to_svg_vector_def ow)
  then show ?thesis
    using ex nex io out_svg_a by (simp add: try_convert_def out_svg_of_def)
qed

section \<open>Skipping an existing output (C5)\<close>

text \<open>
  The property as stated is false: the check that the input still exists comes first, so
  an input path that is gone gives the missing error even though its output exists.
\<close>

theorem skip_missing_input_counterexample:
  "path_exists fs_stale (out_svg_of app_output_dir src_a)
   \<and> convert_one env_ok app_output_dir
        (fs_stale, \<lparr>converted = [], skipped = [], errors = []\<rparr>) src_a
       = (fs_stale, \<lparr>converted = [], skipped = [], errors = [''a.png (missing)'']\<rparr>)"
proof -
  have "\<not> path_exists fs_stale src_a"
    by (simp add: path_exists_def fs_stale_def src_a_def app_output_dir_def out_a_def)
  then have "try_convert env_ok app_output_dir fs_stale src_a = (Inr Missing, fs_stale)"
    by (rule try_convert_missing)
  moreover have "path_exists fs_stale out_a"
    by (simp add: path_exists_def fs_stale_def src_a_def app_output_dir_def out_a_def)
  ultimately show ?thesis
    by (simp add: convert_one_def out_svg_a stem_a)
qed

text \<open>
  C5, amended. For every input path that still exists and whose computed output path
  \<open>OUTPUT_DIR / (stem + ".svg")\<close> already exists, the orchestrator records Skipped,
  whatever the decoder and the operating system would do (the input is not decoded),
  and leaves the whole file system as it was. Consequently, when a batch of one path
  converted it, the same batch run again on the resulting file system, with no
  clearing in between, records Skipped and leaves that file system, the SVG file's
  bytes included, unchanged.
\<close>

theorem skip_existing_output:
  "(path_exists fs src \<and> path_exists fs (out_svg_of OUTPUT_DIR src) \<longrightarrow>
      try_convert env OUTPUT_DIR fs src = (Inr AlreadyThere, fs) \<and>
      try_convert env' OUTPUT_DIR fs src = try_convert env OUTPUT_DIR fs src \<and>
      convert_one env OUTPUT_DIR (fs, s) src = (fs, s\<lparr>skipped := skipped s @ [path_name src]\<rparr>))
   \<and> (convert_selected env OUTPUT_DIR fs [src] = Inr (fs1, sel, s1) \<and> converted s1 \<noteq> [] \<longrightarrow>
      s1 = \<lparr>converted = [path_name src], skipped = [], errors = []\<rparr> \<and>
      convert_selected env' OUTPUT_DIR fs1 [src]
        = Inr (fs1, [], \<lparr>converted = [], skipped = [path_name src], errors = []\<rparr>))"
proof (intro conjI impI)
  assume "path_exists fs src \<and> path_exists fs (out_svg_of OUTPUT_DIR src)"
  then have ex: "path_exists fs src" "path_exists fs (out_svg_of OUTPUT_DIR src)"
    by simp_all
  from try_convert_skip[OF ex] show t: "try_convert env OUTPUT_DIR fs src = (Inr AlreadyThere, fs)" .
  from try_convert_skip[OF ex] t
  show "try_convert env' OUTPUT_DIR fs src = try_convert env OUTPUT_DIR fs src"
    by simp
  from t show "convert_one env OUTPUT_DIR (fs, s) src
                 = (fs, s\<lparr>skipped := skipped s @ [path_name src]\<rparr>)"
    by (simp add: convert_one_def)
next
  assume a: "convert_selected env OUTPUT_DIR fs [src] = Inr (fs1, sel, s1) \<and> converted s1 \<noteq> []"
  then obtain fs0 where mk: "mkdir_exist_ok env fs OUTPUT_DIR = Inr fs0"
    by (cases "mkdir_exist_ok env fs OUTPUT_DIR") (simp_all add: convert_selected_def)
  let ?e = "\<lparr>converted = [], skipped = [], errors = []\<rparr>"
  from a mk have step: "convert_one env OUTPUT_DIR (fs0, ?e) src = (fs1, s1)"
    by (auto simp: convert_selected_def split: prod.splits)
  obtain r fs' where t: "try_convert env OUTPUT_DIR fs0 src = (r, fs')"
    by (cases "try_convert env OUTPUT_DIR fs0 src")
  from step t a have r: "r = Inr Written"
    by (cases r; cases "projr r") (auto simp: convert_one_def)
  with step t have fs': "fs' = fs1" and s1: "s1 = ?e\<lparr>converted := [path_name src]\<rparr>"
    by (simp_all add: convert_one_def)
  from s1 show "s1 = \<lparr>converted = [path_name src], skipped = [], errors = []\<rparr>"
    by simp
  from t r fs' have w: "try_convert env OUTPUT_DIR fs0 src = (Inr Written, fs1)"
    by simp
  note after = try_convert_written[OF w]
  from after(3) have "mkdir_exist_ok env' fs1 OUTPUT_DIR = Inr fs1"
    by (simp add: mkdir_exist_ok_def)
  moreover from try_convert_skip[OF after(1,2)]
  have "convert_one env' OUTPUT_DIR (fs1, ?e) src = (fs1, ?e\<lparr>skipped := [path_name src]\<rparr>)"
    by (simp add: convert_one_def)
  ultimately show "convert_selected env' OUTPUT_DIR fs1 [src]
        = Inr (fs1, [], \<lparr>converted = [], skipped = [path_name src], errors = []\<rparr>)"
    by (simp add: convert_selected_def)
qed

theorem skip_existing_output_witness:
  "convert_selected env_ok app_output_dir fs_fresh [src_a]
     = Inr (fs_once, [], \<lparr>converted = [''a.png''], skipped = [], errors = []\<rparr>)
   \<and> path_exists fs_once src_a \<and> path_exists fs_once (out_svg_of app_output_dir src_a)
   \<and> convert_selected env_corrupt app_output_dir fs_once [src_a]
     = Inr (fs_once, [], \<lparr>converted = [], skipped = [''a.png''], errors = []\<rparr>)
   \<and> convert_one env_corrupt app_output_dir
        (fs_once, \<lparr>converted = [], skipped = [], errors = []\<rparr>) src_a
     = (fs_once, \<lparr>converted = [], skipped = [''a.png''], errors = []\<rparr>)"
proof -
  have mk: "mkdir_exist_ok env fs_fresh app_output_dir = Inr fs_fresh" for env
    by (simp add: mkdir_exist_ok_def fs_fresh_def app_output_dir_def)
  with try_fresh_ok
  have first: "convert_selected env_ok app_output_dir fs_fresh [src_a]
     = Inr (fs_once, [], \<lparr>converted = [''a.png''], skipped = [], errors = []\<rparr>)"
    by (simp add: convert_selected_def convert_one_def stem_a)
  have "path_exists fs_once src_a" "path_exists fs_once out_a"
    by (simp_all add: path_exists_def fs_once_def fs_fresh_def src_a_def out_a_def
          app_output_dir_def)
  then have ex: "path_exists fs_once src_a" "path_exists fs_once (out_svg_of app_output_dir src_a)"
    by (simp_all only: out_svg_a)
  from first ex
    skip_existing_output[of fs_once src_a app_output_dir env_corrupt env_ok
      "\<lparr>converted = [], skipped = [], errors = []\<rparr>"]
    skip_existing_output[of fs_fresh src_a app_output_dir env_ok env_corrupt _ fs_once "[]"
      "\<lparr>converted = [''a.png''], skipped = [], errors = []\<rparr>"]
  show ?thesis
    by (simp add: stem_a)
qed

section \<open>Failed conversions (C7)\<close>

text \<open>
  The property as stated is false: when a write fails after the output file was opened,
  the outcome is an error but the file stays, with the part of the text written.
\<close>

theorem partial_file_counterexample:
  "convert_one env_full app_output_dir
        (fs_fresh, \<lparr>converted = [], skipped = [], errors = []\<rparr>) src_a
       = (fs_fresh @ [(out_a, File ''<?xml vers'')],
          \<lparr>converted = [], skipped = [],
            errors = [''a.png (error: [Errno 28] No space left on device)'']\<rparr>)
   \<and> \<not> path_exists fs_fresh (out_svg_of app_output_dir src_a)
   \<and> path_exists (fs_fresh @ [(out_a, File ''<?xml vers'')]) (out_svg_of app_output_dir src_a)
   \<and> map_of (fs_fresh @ [(out_a, File ''<?xml vers'')]) (out_svg_of app_output_dir src_a)
         = Some (File (take 10 (fst (svg_written img_rrg))))
   \<and> 10 < length (fst (svg_written img_rrg))"
proof -
  have m: "map_of (fs_fresh @ [(out_a, File ''<?xml vers'')]) out_a = Some (File ''<?xml vers'')"
    by (simp add: fs_fresh_def src_a_def out_a_def app_output_dir_def)
  have nex: "\<not> path_exists fs_fresh out_a"
    by (simp add: path_exists_def fs_fresh_def src_a_def app_output_dir_def out_a_def)
  obtain rest where rest: "fst (svg_written img_rrg) = ''<?xml vers'' @ rest" "rest \<noteq> []"
    using svg_written_starts by blast
  then have "take 10 (fst (svg_written img_rrg)) = ''<?xml vers''"
    and "10 < length (fst (svg_written img_rrg))"
    by simp_all
  with try_full m nex show ?thesis
    by (simp add: convert_one_def out_svg_a stem_a path_exists_def)
qed

text \<open>
  C7, amended. For every input path whose conversion fails, the outcome for that path
  is an error entry carrying the message of the exception. When decoding failed
  (\<^verbatim>\<open>Image.open\<close> or the conversion to RGBA raised), and when the image was decoded
  but the output file could not be opened, the exception is that failure, the file
  system is unchanged and the output file does not exist afterwards. In the one
  remaining case the output file was opened and a write failed after \<open>k\<close> characters,
  fewer than the text has: the output file stays and holds exactly the first \<open>k\<close>
  characters of the text, and every other path is as before.
\<close>

theorem failed_conversion_outcome:
  assumes "try_convert env OUTPUT_DIR fs src = (Inl e, fs')"
  shows "convert_one env OUTPUT_DIR (fs, s) src
           = (fs', s\<lparr>errors := errors s @ [path_name src @ '' (error: '' @ str_exn e @ '')'']\<rparr>)
       \<and> (case decode env fs src of
             Inl d \<Rightarrow>
               e = d \<and> fs' = fs \<and> \<not> path_exists fs' (out_svg_of OUTPUT_DIR src)
           | Inr img \<Rightarrow>
               (case open_w env fs (out_svg_of OUTPUT_DIR src) of
                  Inl d \<Rightarrow>
                    e = d \<and> fs' = fs \<and> \<not> path_exists fs' (out_svg_of OUTPUT_DIR src)
                | Inr fs1 \<Rightarrow>
                    (\<exists>k. write_limit env (out_svg_of OUTPUT_DIR src) = Some k \<and>
                         e = OSError_ENOSPC \<and> k < length (fst (svg_written img)) \<and>
                         map_of fs' (out_svg_of OUTPUT_DIR src)
                           = Some (File (take k (fst (svg_written img)))) \<and>
                         (\<forall>p. p \<noteq> out_svg_of OUTPUT_DIR src \<longrightarrow> map_of fs' p = map_of fs p))))"
proof (intro conjI)
  from assms show "convert_one env OUTPUT_DIR (fs, s) src
           = (fs', s\<lparr>errors := errors s @ [path_name src @ '' (error: '' @ str_exn e @ '')'']\<rparr>)"
    by (simp add: convert_one_def)
  note r = try_convert_raised[OF assms]
  from r(2,3) show "case decode env fs src of
             Inl d \<Rightarrow>
               e = d \<and> fs' = fs \<and> \<not> path_exists fs' (out_svg_of OUTPUT_DIR src)
           | Inr img \<Rightarrow>
               (case open_w env fs (out_svg_of OUTPUT_DIR src) of
                  Inl d \<Rightarrow>
                    e = d \<and> fs' = fs \<and> \<not> path_exists fs' (out_svg_of OUTPUT_DIR src)
                | Inr fs1 \<Rightarrow>
                    (\<exists>k. write_limit env (out_svg_of OUTPUT_DIR src) = Some k \<and>
                         e = OSError_ENOSPC \<and> k < length (fst (svg_written img)) \<and>
                         map_of fs' (out_svg_of OUTPUT_DIR src)
                           = Some (File (take k (fst (svg_written img)))) \<and>
                         (\<forall>p. p \<noteq> out_svg_of OUTPUT_DIR src \<longrightarrow> map_of fs' p = map_of fs p)))"
    by (auto split: sum.splits)
qed

theorem failed_conversion_outcome_witness:
  "try_convert env_corrupt app_output_dir fs_fresh src_a
     = (Inl (DecodeError (''cannot identify image file '' @ py_repr (fspath src_a))), fs_fresh)
   \<and> convert_one env_corrupt app_output_dir
        (fs_fresh, \<lparr>converted = [], skipped = [], errors = []\<rparr>) src_a
       = (fs_fresh, \<lparr>converted = [], skipped = [],
            errors = [''a.png (error: cannot identify image file '/pics/a.png')'']\<rparr>)
   \<and> try_convert env_readonly app_output_dir fs_fresh src_a
     = (Inl (PermissionError out_a), fs_fresh)
   \<and> convert_one env_readonly app_output_dir
        (fs_fresh, \<lparr>converted = [], skipped = [], errors = []\<rparr>) src_a
       = (fs_fresh, \<lparr>converted = [], skipped = [],
            errors = [''a.png (error: [Errno 13] Permission denied: '/app/converted_svgs/a.svg')'']\<rparr>)
   \<and> \<not> path_exists fs_fresh (out_svg_of app_output_dir src_a)
   \<and> try_convert env_full app_output_dir fs_fresh src_a
     = (Inl OSError_ENOSPC, fs_fresh @ [(out_a, File ''<?xml vers'')])
   \<and> convert_one env_full app_output_dir
        (fs_fresh, \<lparr>converted = [], skipped = [], errors = []\<rparr>) src_a
       = (fs_fresh @ [(out_a, File ''<?xml vers'')],
          \<lparr>converted = [], skipped = [],
            errors = [''a.png (error: [Errno 28] No space left on device)'']\<rparr>)
   \<and> map_of (fs_fresh @ [(out_a, File ''<?xml vers'')]) (out_svg_of app_output_dir src_a)
         = Some (File (take 10 (fst (svg_written img_rrg))))"
proof -
  let ?e = "\<lparr>converted = [], skipped = [], errors = []\<rparr>"
  have io: "Image_open env fs_fresh src_a = decoder env src_a ''PNG''" for env
    by (simp add: Image_open_def fs_fresh_def src_a_def app_output_dir_def)
  have d1: "decode env_corrupt fs_fresh src_a
              = Inl (DecodeError (''cannot identify image file '' @ py_repr (fspath src_a)))"
    by (simp add: decode_def io env_corrupt_def env_ok_def)
  have d2: "decode env_readonly fs_fresh src_a = Inr img_rrg"
    by (simp add: decode_def io env_readonly_def env_ok_def)
  have d3: "decode env_full fs_fresh src_a = Inr img_rrg"
    by (simp add: decode_def io env_full_def env_ok_def)
  have o2: "open_w env_readonly fs_fresh out_a = Inl (PermissionError out_a)"
    by (simp add: open_w_def fs_fresh_def src_a_def app_output_dir_def out_a_def env_ok_def
          env_readonly_def)
  have o3: "open_w env_full fs_fresh out_a = Inr (fs_fresh @ [(out_a, File [])])"
    by (simp add: open_w_def fs_fresh_def src_a_def app_output_dir_def out_a_def env_ok_def
          env_full_def)
  have w3: "write_limit env_full out_a = Some 10"
    by (simp add: env_full_def env_ok_def)
  from failed_conversion_outcome[OF try_corrupt, of ?e]
  have c1: "convert_one env_corrupt app_output_dir (fs_fresh, ?e) src_a
       = (fs_fresh, \<lparr>converted = [], skipped = [],
            errors = [''a.png (error: cannot identify image file '/pics/a.png')'']\<rparr>)"
    and n1: "\<not> path_exists fs_fresh (out_svg_of app_output_dir src_a)"
    by (simp_all add: d1 stem_a repr_examples)
  from failed_conversion_outcome[OF try_readonly, of ?e]
  have c2: "convert_one env_readonly app_output_dir (fs_fresh, ?e) src_a
       = (fs_fresh, \<lparr>converted = [], skipped = [],
            errors = [''a.png (error: [Errno 13] Permission denied: '/app/converted_svgs/a.svg')'']\<rparr>)"
    by (simp add: d2 o2 out_svg_a stem_a repr_examples str_OSError_def str_nat_13)
  from failed_conversion_outcome[OF try_full, of ?e]
  have c3: "convert_one env_full app_output_dir (fs_fresh, ?e) src_a
       = (fs_fresh @ [(out_a, File ''<?xml vers'')],
          \<lparr>converted = [], skipped = [],
            errors = [''a.png (error: [Errno 28] No space left on device)'']\<rparr>)"
    and m3: "map_of (fs_fresh @ [(out_a, File ''<?xml vers'')]) (out_svg_of app_output_dir src_a)
         = Some (File (take 10 (fst (svg_written img_rrg))))"
    by (simp_all add: d3 o3 w3 out_svg_a stem_a)
  from try_corrupt try_readonly try_full c1 n1 c2 c3 m3 show ?thesis
    by simp
qed

section \<open>The batch goes on after an error (C8)\<close>

text \<open>
  C8. For every batch: unless the selection is empty or the output directory cannot be
  created (which happens before any file is processed), the batch returns, and its
  three lists are the outcomes of all its paths, one outcome per path, in order. A
  path whose conversion raises gets an error outcome and the paths after it are
  processed on the file system it left; a path that no longer exists gets the error
  outcome \<open>(missing)\<close> and the paths after it are processed on the same file system.
\<close>

theorem batch_outcomes:
  "convert_selected env OUTPUT_DIR fs ps =
     (if ps = [] then Inr (fs, [], summary_of [])
      else case mkdir_exist_ok env fs OUTPUT_DIR of
             Inl e \<Rightarrow> Inl e
           | Inr fs1 \<Rightarrow>
               Inr (snd (outcomes env OUTPUT_DIR fs1 ps), [],
                    summary_of (fst (outcomes env OUTPUT_DIR fs1 ps))))
   \<and> length (fst (outcomes env OUTPUT_DIR fs1 ps)) = length ps
   \<and> (try_convert env OUTPUT_DIR fs1 p = (Inl e, fs') \<longrightarrow>
        fst (outcomes env OUTPUT_DIR fs1 (p # qs))
          = Error (path_name p @ '' (error: '' @ str_exn e @ '')'')
              # fst (outcomes env OUTPUT_DIR fs' qs))
   \<and> (\<not> path_exists fs1 p \<longrightarrow>
        fst (outcomes env OUTPUT_DIR fs1 (p # qs))
          = Error (path_name p @ '' (missing)'') # fst (outcomes env OUTPUT_DIR fs1 qs))"
proof (intro conjI impI)
  show "convert_selected env OUTPUT_DIR fs ps =
     (if ps = [] then Inr (fs, [], summary_of [])
      else case mkdir_exist_ok env fs OUTPUT_DIR of
             Inl e \<Rightarrow> Inl e
           | Inr fs1 \<Rightarrow>
               Inr (snd (outcomes env OUTPUT_DIR fs1 ps), [],
                    summary_of (fst (outcomes env OUTPUT_DIR fs1 ps))))"
  proof (cases "ps = []")
    case True
    then show ?thesis
      by (simp add: convert_selected_def summary_of_def)
  next
    case False
    show ?thesis
    proof (cases "mkdir_exist_ok env fs OUTPUT_DIR")
      case (Inl e)
      with False show ?thesis by (simp add: convert_selected_def)
    next
      case (Inr fs0)
      have "foldl (convert_one env OUTPUT_DIR)
              (fs0, \<lparr>converted = [], skipped = [], errors = []\<rparr>) ps
            = (snd (outcomes env OUTPUT_DIR fs0 ps),
               summary_of (fst (outcomes env OUTPUT_DIR fs0 ps)))"
        by (simp add: foldl_convert_one)
      with False Inr show ?thesis
        by (simp add: convert_selected_def)
    qed
  qed
  show "length (fst (outcomes env OUTPUT_DIR fs1 ps)) = length ps"
    by (rule length_outcomes)
next
  assume "try_convert env OUTPUT_DIR fs1 p = (Inl e, fs')"
  then show "fst (outcomes env OUTPUT_DIR fs1 (p # qs))
          = Error (path_name p @ '' (error: '' @ str_exn e @ '')'')
              # fst (outcomes env OUTPUT_DIR fs' qs)"
    by (simp add: outcome_of_def split: prod.splits)
next
  assume "\<not> path_exists fs1 p"
  then have "try_convert env OUTPUT_DIR fs1 p = (Inr Missing, fs1)"
    by (rule try_convert_missing)
  then show "fst (outcomes env OUTPUT_DIR fs1 (p # qs))
          = Error (path_name p @ '' (missing)'') # fst (outcomes env OUTPUT_DIR fs1 qs)"
    by (simp add: outcome_of_def split: prod.splits)
qed

theorem batch_outcomes_witness:
  "\<not> path_exists fs_fresh src_gone
   \<and> convert_selected env_ok app_output_dir fs_fresh [src_gone, src_a]
       = Inr (fs_once, [],
              \<lparr>converted = [''a.png''], skipped = [], errors = [''gone.png (missing)'']\<rparr>)
   \<and> convert_selected env_corrupt app_output_dir fs_fresh [src_a, src_gone]
       = Inr (fs_fresh, [],
              \<lparr>converted = [], skipped = [],
                errors = [''a.png (error: cannot identify image file '/pics/a.png')'',
                          ''gone.png (missing)'']\<rparr>)"
proof -
  have gone: "\<not> path_exists fs_fresh src_gone"
    by (simp add: path_exists_def fs_fresh_def src_gone_def src_a_def app_output_dir_def)
  have mk: "mkdir_exist_ok env fs_fresh app_output_dir = Inr fs_fresh" for env
    by (simp add: mkdir_exist_ok_def fs_fresh_def app_output_dir_def)
  have t1: "try_convert env_ok app_output_dir fs_fresh src_gone = (Inr Missing, fs_fresh)"
    and t2: "try_convert env_corrupt app_output_dir fs_fresh src_gone = (Inr Missing, fs_fresh)"
    using gone by (simp_all add: try_convert_missing)
  have o1: "outcomes env_ok app_output_dir fs_fresh [src_gone, src_a]
              = ([Error ''gone.png (missing)'', Converted ''a.png''], fs_once)"
    by (simp add: t1 try_fresh_ok outcome_of_def stem_a)
  have o2: "outcomes env_corrupt app_output_dir fs_fresh [src_a, src_gone]
              = ([Error ''a.png (error: cannot identify image file '/pics/a.png')'',
                  Error ''gone.png (missing)''], fs_fresh)"
    by (simp add: t2 try_corrupt outcome_of_def stem_a repr_examples)
  note b1 = batch_outcomes[of env_ok app_output_dir fs_fresh "[src_gone, src_a]"
      fs_fresh src_gone IndexError fs_fresh "[]", THEN conjunct1]
  note b2 = batch_outcomes[of env_corrupt app_output_dir fs_fresh "[src_a, src_gone]"
      fs_fresh src_gone IndexError fs_fresh "[]", THEN conjunct1]
  from gone b1 b2 show ?thesis
    by (simp add: mk o1 o2 summary_of_def del: outcomes.simps)
qed

section \<open>Clearing the output directory (C9)\<close>

lemma map_of_unlink_or_pass:
  "map_of (unlink_or_pass env fs f) q =
     (if q = f \<and> deletable env fs f then None else map_of fs q)"
  by (simp add: unlink_or_pass_def unlink_def deletable_def delete_conv'
      split: option.splits node.splits)

lemma deletable_unlink_or_pass:
  "q \<noteq> f \<Longrightarrow> deletable env (unlink_or_pass env fs f) q = deletable env fs q"
  by (simp add: deletable_def map_of_unlink_or_pass)

lemma map_of_foldl_unlink:
  "map_of (foldl (unlink_or_pass env) fs fl) q =
     (if q \<in> set fl \<and> deletable env fs q then None else map_of fs q)"
proof (induction fl arbitrary: fs)
  case Nil
  show ?case by simp
next
  case (Cons f fl)
  let ?fs = "unlink_or_pass env fs f"
  have IH: "map_of (foldl (unlink_or_pass env) ?fs fl) q =
     (if q \<in> set fl \<and> deletable env ?fs q then None else map_of ?fs q)"
    by (rule Cons.IH)
  show ?case
  proof (cases "q = f")
    case False
    with IH show ?thesis
      by (simp add: deletable_unlink_or_pass map_of_unlink_or_pass)
  next
    case True
    show ?thesis
    proof (cases "deletable env fs f")
      case del: True
      then have "map_of ?fs f = None" by (simp add: map_of_unlink_or_pass)
      then have "\<not> deletable env ?fs f" by (simp add: deletable_def)
      with IH True del \<open>map_of ?fs f = None\<close> show ?thesis by simp
    next
      case nodel: False
      then have "map_of ?fs = map_of fs"
        by (auto simp: map_of_unlink_or_pass fun_eq_iff)
      then have "deletable env ?fs f = deletable env fs f" "map_of ?fs f = map_of fs f"
        by (simp_all add: deletable_def)
      with IH True nodel show ?thesis by simp
    qed
  qed
qed

lemma in_entries:
  "q \<in> set (entries fs d) \<longleftrightarrow> inside d q \<and> map_of fs q \<noteq> None"
  by (auto simp: entries_def map_of_eq_None_iff)

lemma entries_empty:
  "entries fs d = [] \<longleftrightarrow> (\<forall>p. inside d p \<longrightarrow> map_of fs p = None)"
proof
  assume "entries fs d = []"
  then have "\<forall>p. p \<notin> set (entries fs d)" by simp
  then have "\<forall>p. \<not> (inside d p \<and> map_of fs p \<noteq> None)"
    unfolding in_entries .
  then show "\<forall>p. inside d p \<longrightarrow> map_of fs p = None"
    by simp
next
  assume "\<forall>p. inside d p \<longrightarrow> map_of fs p = None"
  then have "\<forall>p. \<not> (inside d p \<and> map_of fs p \<noteq> None)"
    by simp
  then have "\<forall>p. p \<notin> set (entries fs d)"
    unfolding in_entries .
  then show "entries fs d = []"
    by (metis last_in_set)
qed

lemma not_inside_self: "\<not> inside d d"
proof
  assume "inside d d"
  then have "d \<noteq> []" "butlast d = d" by (simp_all add: inside_def)
  then have "length d - 1 = length d" by (metis length_butlast)
  then have "length d = 0" by arith
  with \<open>d \<noteq> []\<close> show False by simp
qed

lemma map_of_rmdir_or_pass:
  assumes "map_of fs d = Some Dir"
  shows "map_of (rmdir_or_pass env fs d) q =
     (if q = d \<and> (\<forall>p. inside d p \<longrightarrow> map_of fs p = None) \<and> \<not> rmdir_denied env d
      then None else map_of fs q)"
proof (cases "entries fs d = [] \<and> \<not> rmdir_denied env d")
  case True
  with assms have "rmdir_or_pass env fs d = AList.delete d fs"
    by (simp add: rmdir_or_pass_def rmdir_def)
  with True show ?thesis
    by (simp add: delete_conv' entries_empty)
next
  case False
  with assms have "rmdir_or_pass env fs d = fs"
    by (auto simp: rmdir_or_pass_def rmdir_def)
  with False show ?thesis
    by (auto simp: entries_empty)
qed

lemma clear_mixed:
  "clear_converted env_locked app_output_dir fs_mixed =
     (Inr Cleared,
      [([''app''], Dir), (app_output_dir, Dir),
       ([''app'', ''converted_svgs'', ''locked.svg''], File ''<svg/>''),
       ([''app'', ''converted_svgs'', ''sub''], Dir),
       ([''app'', ''converted_svgs'', ''sub'', ''deep.svg''], File ''<svg/>'')])"
  by (simp add: clear_converted_def path_exists_def iterdir_def entries_def inside_def
        unlink_or_pass_def unlink_def rmdir_or_pass_def rmdir_def fs_mixed_def env_locked_def
        env_ok_def app_output_dir_def out_a_def AList.delete_eq)

lemma clear_once:
  "clear_converted env_ok app_output_dir fs_once =
     (Inr Cleared, [([''app''], Dir), ([''pics''], Dir), (src_a, File ''PNG'')])"
  by (simp add: clear_converted_def path_exists_def iterdir_def entries_def inside_def
        unlink_or_pass_def unlink_def rmdir_or_pass_def rmdir_def fs_once_def fs_fresh_def
        env_ok_def app_output_dir_def out_a_def src_a_def AList.delete_eq)

lemma clear_pinned:
  "clear_converted env_pinned app_output_dir fs_once = (Inr Cleared, fs_fresh)"
  by (simp add: clear_converted_def path_exists_def iterdir_def entries_def inside_def
        unlink_or_pass_def unlink_def rmdir_or_pass_def rmdir_def fs_once_def fs_fresh_def
        env_pinned_def env_ok_def app_output_dir_def out_a_def src_a_def AList.delete_eq)

lemma clear_unlistable:
  "clear_converted env_unlistable app_output_dir fs_once
     = (Inl (PermissionError app_output_dir), fs_once)"
  by (simp add: clear_converted_def path_exists_def iterdir_def fs_once_def fs_fresh_def
        env_unlistable_def env_ok_def app_output_dir_def)

text \<open>
  The property as stated is false: the operating system can refuse the removal of the
  directory and its listing. The refused removal is passed over, so the directory stays
  although it is empty; the refused listing raises, and no file is deleted.
\<close>

theorem clear_refused_counterexample:
  "clear_converted env_pinned app_output_dir fs_once = (Inr Cleared, fs_fresh)
   \<and> map_of fs_fresh app_output_dir = Some Dir
   \<and> entries fs_fresh app_output_dir = []
   \<and> clear_converted env_unlistable app_output_dir fs_once
       = (Inl (PermissionError app_output_dir), fs_once)
   \<and> map_of fs_once out_a = Some (File (fst (svg_written img_rrg)))
   \<and> inside app_output_dir out_a"
proof -
  have "map_of fs_fresh app_output_dir = Some Dir"
    by (simp add: fs_fresh_def app_output_dir_def)
  moreover have "entries fs_fresh app_output_dir = []"
    by (simp add: entries_def inside_def fs_fresh_def app_output_dir_def src_a_def)
  moreover have "map_of fs_once out_a = Some (File (fst (svg_written img_rrg)))"
    by (simp add: fs_once_def fs_fresh_def app_output_dir_def src_a_def out_a_def)
  moreover have "inside app_output_dir out_a"
    by (simp add: inside_def app_output_dir_def out_a_def)
  ultimately show ?thesis
    using clear_pinned clear_unlistable by simp
qed

text \<open>
  C9, amended. When the output directory is there and can be listed, clearing returns
  normally, whatever deletions the operating system refuses. Of the paths directly
  inside the directory, every regular file whose deletion is not refused is gone
  afterwards, and every other one (a file whose deletion is refused, a subdirectory)
  is as before: failing on one entry does not stop the deletion of the others. Every
  path that is neither the directory nor directly inside it, so everything inside its
  subdirectories, is as before. The directory itself is removed exactly when nothing is
  left directly inside it and the operating system does not refuse the removal; a
  refused removal is passed over and the empty directory stays. The listing is not
  guarded: when it is refused, or the path is a regular file, its exception leaves the
  operation and nothing is changed. When the directory does not exist, nothing
  changes.
\<close>

theorem clear_converted_effect:
  "(map_of fs OUTPUT_DIR = Some Dir \<and> \<not> list_denied env OUTPUT_DIR \<longrightarrow>
      fst (clear_converted env OUTPUT_DIR fs) = Inr Cleared \<and>
      (\<forall>q. inside OUTPUT_DIR q \<longrightarrow>
           map_of (snd (clear_converted env OUTPUT_DIR fs)) q
             = (if deletable env fs q then None else map_of fs q)) \<and>
      (\<forall>q. \<not> inside OUTPUT_DIR q \<and> q \<noteq> OUTPUT_DIR \<longrightarrow>
           map_of (snd (clear_converted env OUTPUT_DIR fs)) q = map_of fs q) \<and>
      map_of (snd (clear_converted env OUTPUT_DIR fs)) OUTPUT_DIR
        = (if (\<exists>q. inside OUTPUT_DIR q \<and> map_of (snd (clear_converted env OUTPUT_DIR fs)) q \<noteq> None)
              \<or> rmdir_denied env OUTPUT_DIR
           then Some Dir else None))
   \<and> (map_of fs OUTPUT_DIR = Some Dir \<and> list_denied env OUTPUT_DIR \<longrightarrow>
        clear_converted env OUTPUT_DIR fs = (Inl (PermissionError OUTPUT_DIR), fs))
   \<and> (map_of fs OUTPUT_DIR = Some (File c) \<longrightarrow>
        clear_converted env OUTPUT_DIR fs = (Inl (NotADirectoryError OUTPUT_DIR), fs))
   \<and> (map_of fs OUTPUT_DIR = None \<longrightarrow>
        clear_converted env OUTPUT_DIR fs = (Inr NothingToClear, fs))"
proof (intro conjI impI)
  assume "map_of fs OUTPUT_DIR = None"
  then show "clear_converted env OUTPUT_DIR fs = (Inr NothingToClear, fs)"
    by (simp add: clear_converted_def path_exists_def)
next
  assume "map_of fs OUTPUT_DIR = Some (File c)"
  then show "clear_converted env OUTPUT_DIR fs = (Inl (NotADirectoryError OUTPUT_DIR), fs)"
    by (simp add: clear_converted_def path_exists_def iterdir_def)
next
  assume "map_of fs OUTPUT_DIR = Some Dir \<and> list_denied env OUTPUT_DIR"
  then show "clear_converted env OUTPUT_DIR fs = (Inl (PermissionError OUTPUT_DIR), fs)"
    by (simp add: clear_converted_def path_exists_def iterdir_def)
next
  assume a: "map_of fs OUTPUT_DIR = Some Dir \<and> \<not> list_denied env OUTPUT_DIR"
  then have dir: "map_of fs OUTPUT_DIR = Some Dir" by simp
  let ?fs1 = "foldl (unlink_or_pass env) fs (entries fs OUTPUT_DIR)"
  from a have cc: "clear_converted env OUTPUT_DIR fs
                       = (Inr Cleared, rmdir_or_pass env ?fs1 OUTPUT_DIR)"
    by (simp add: clear_converted_def path_exists_def iterdir_def)
  have fs1: "map_of ?fs1 q = (if inside OUTPUT_DIR q \<and> deletable env fs q then None else map_of fs q)"
    for q
    unfolding map_of_foldl_unlink in_entries
    by (auto simp: deletable_def split: option.splits)
  from dir have dir1: "map_of ?fs1 OUTPUT_DIR = Some Dir"
    by (simp add: fs1 not_inside_self)
  note fs2 = map_of_rmdir_or_pass[OF dir1]
  from cc show "fst (clear_converted env OUTPUT_DIR fs) = Inr Cleared"
    by simp
  show in_dir: "\<forall>q. inside OUTPUT_DIR q \<longrightarrow>
           map_of (snd (clear_converted env OUTPUT_DIR fs)) q
             = (if deletable env fs q then None else map_of fs q)"
  proof (intro allI impI)
    fix q assume q: "inside OUTPUT_DIR q"
    then have "q \<noteq> OUTPUT_DIR" using not_inside_self by blast
    with q show "map_of (snd (clear_converted env OUTPUT_DIR fs)) q
             = (if deletable env fs q then None else map_of fs q)"
      by (simp add: cc fs2 fs1)
  qed
  show "\<forall>q. \<not> inside OUTPUT_DIR q \<and> q \<noteq> OUTPUT_DIR \<longrightarrow>
           map_of (snd (clear_converted env OUTPUT_DIR fs)) q = map_of fs q"
    by (simp add: cc fs2 fs1)
  have same: "inside OUTPUT_DIR q \<Longrightarrow>
                map_of (snd (clear_converted env OUTPUT_DIR fs)) q = map_of ?fs1 q" for q
    using not_inside_self[of OUTPUT_DIR] by (auto simp: cc fs2)
  have "(\<exists>q. inside OUTPUT_DIR q \<and> map_of (snd (clear_converted env OUTPUT_DIR fs)) q \<noteq> None)
          \<longleftrightarrow> \<not> (\<forall>p. inside OUTPUT_DIR p \<longrightarrow> map_of ?fs1 p = None)"
    using same by auto
  then show "map_of (snd (clear_converted env OUTPUT_DIR fs)) OUTPUT_DIR
        = (if (\<exists>q. inside OUTPUT_DIR q \<and> map_of (snd (clear_converted env OUTPUT_DIR fs)) q \<noteq> None)
              \<or> rmdir_denied env OUTPUT_DIR
           then Some Dir else None)"
    using dir1 by (simp add: cc fs2)
qed

theorem clear_converted_effect_witness:
  "map_of fs_mixed app_output_dir = Some Dir \<and> \<not> list_denied env_locked app_output_dir
   \<and> fst (clear_converted env_locked app_output_dir fs_mixed) = Inr Cleared
   \<and> clear_converted env_locked app_output_dir fs_mixed =
     (Inr Cleared,
      [([''app''], Dir), (app_output_dir, Dir),
       ([''app'', ''converted_svgs'', ''locked.svg''], File ''<svg/>''),
       ([''app'', ''converted_svgs'', ''sub''], Dir),
       ([''app'', ''converted_svgs'', ''sub'', ''deep.svg''], File ''<svg/>'')])
   \<and> clear_converted env_ok app_output_dir fs_once =
     (Inr Cleared, [([''app''], Dir), ([''pics''], Dir), (src_a, File ''PNG'')])
   \<and> rmdir_denied env_pinned app_output_dir
   \<and> clear_converted env_pinned app_output_dir fs_once = (Inr Cleared, fs_fresh)
   \<and> map_of fs_fresh app_output_dir = Some Dir
   \<and> map_of fs_once app_output_dir = Some Dir \<and> list_denied env_unlistable app_output_dir
   \<and> clear_converted env_unlistable app_output_dir fs_once
       = (Inl (PermissionError app_output_dir), fs_once)
   \<and> map_of [([''app''], Dir), (app_output_dir, File ''x'')] app_output_dir = Some (File ''x'')
   \<and> clear_converted env_ok app_output_dir [([''app''], Dir), (app_output_dir, File ''x'')]
       = (Inl (NotADirectoryError app_output_dir), [([''app''], Dir), (app_output_dir, File ''x'')])
   \<and> map_of [([''app''], Dir)] app_output_dir = None
   \<and> clear_converted env_ok app_output_dir [([''app''], Dir)]
       = (Inr NothingToClear, [([''app''], Dir)])"
proof -
  have d: "map_of fs_mixed app_output_dir = Some Dir \<and> \<not> list_denied env_locked app_output_dir"
    by (simp add: fs_mixed_def app_output_dir_def env_locked_def env_ok_def)
  have d1: "map_of fs_fresh app_output_dir = Some Dir"
    by (simp add: fs_fresh_def app_output_dir_def)
  have u: "map_of fs_once app_output_dir = Some Dir \<and> list_denied env_unlistable app_output_dir"
    by (simp add: fs_once_def fs_fresh_def app_output_dir_def env_unlistable_def env_ok_def)
  have p: "rmdir_denied env_pinned app_output_dir"
    by (simp add: env_pinned_def env_ok_def)
  have f: "map_of [([''app''], Dir), (app_output_dir, File ''x'')] app_output_dir = Some (File ''x'')"
    by (simp add: app_output_dir_def)
  have n: "map_of [([''app''], Dir)] app_output_dir = None"
    by (simp add: app_output_dir_def)
  note cleared = clear_converted_effect[of fs_mixed app_output_dir env_locked,
      THEN conjunct1, THEN mp, OF d, THEN conjunct1]
  note refused = clear_converted_effect[of fs_once app_output_dir env_unlistable,
      THEN conjunct2, THEN conjunct1, THEN mp, OF u]
  note notdir = clear_converted_effect[of "[([''app''], Dir), (app_output_dir, File ''x'')]"
      app_output_dir env_ok "''x''", THEN conjunct2, THEN conjunct2, THEN conjunct1, THEN mp, OF f]
  note absent = clear_converted_effect[of "[([''app''], Dir)]" app_output_dir env_ok,
      THEN conjunct2, THEN conjunct2, THEN conjunct2, THEN mp, OF n]
  note facts = d[THEN conjunct1] d[THEN conjunct2] cleared clear_mixed clear_once p
    clear_pinned d1 u[THEN conjunct1] u[THEN conjunct2] refused f notdir n absent
  show ?thesis
    by (intro conjI) (rule facts)+
qed

section \<open>The round trip through a rasterizer (C1)\<close>

lemma strip_prefix_append: "strip_prefix lit (lit @ s) = Some s"
  by (induction lit) simp_all

lemma sixteen_cases:
  assumes "d < 16"
  shows "d = 0 \<or> d = 1 \<or> d = 2 \<or> d = 3 \<or> d = 4 \<or> d = 5 \<or> d = 6 \<or> d = 7
      \<or> d = 8 \<or> d = 9 \<or> d = 10 \<or> d = 11 \<or> d = 12 \<or> d = 13 \<or> d = 14 \<or> d = (15::nat)"
  using assms by arith

lemma digit_val_digit_char: "d < 16 \<Longrightarrow> digit_val (digit_char d) = d"
  by (drule sixteen_cases, elim disjE) (simp_all add: digit_val_def digit_char_def)

lemma ten_cases:
  assumes "d < 10"
  shows "d = 0 \<or> d = 1 \<or> d = 2 \<or> d = 3 \<or> d = 4 \<or> d = 5 \<or> d = 6 \<or> d = 7
      \<or> d = 8 \<or> d = (9::nat)"
  using assms by arith

lemma is_digit_digit_char: "d < 10 \<Longrightarrow> is_digit (digit_char d)"
  by (drule ten_cases, elim disjE) (simp_all add: is_digit_def digit_char_def)

lemma not_digit_simps [simp]:
  "\<not> is_digit CHR 0x22" "\<not> is_digit CHR ''.''" "\<not> is_digit CHR '' ''"
  by (simp_all add: is_digit_def)

lemma str_nat_digits: "\<forall>c \<in> set (str_nat n). is_digit c"
  unfolding str_nat_def
proof (induction "10::nat" n rule: digits_of.induct)
  case (1 n)
  show ?case
  proof (cases "n < 10")
    case True
    then show ?thesis
      by (simp add: digits_of.simps[of 10 n] is_digit_digit_char)
  next
    case False
    with 1 have "\<forall>c \<in> set (digits_of 10 (n div 10)). is_digit c" by simp
    with False show ?thesis
      by (simp add: digits_of.simps[of 10 n] is_digit_digit_char)
  qed
qed

lemma number_of_snoc: "number_of (ds @ [c]) = 10 * number_of ds + digit_val c"
  by (simp add: number_of_def)

lemma number_of_str_nat: "number_of (str_nat n) = n"
  unfolding str_nat_def
proof (induction "10::nat" n rule: digits_of.induct)
  case (1 n)
  show ?case
  proof (cases "n < 10")
    case True
    then show ?thesis
      by (simp add: digits_of.simps[of 10 n] number_of_def digit_val_digit_char)
  next
    case False
    with 1 have "number_of (digits_of 10 (n div 10)) = n div 10" by simp
    with False show ?thesis
      by (simp add: digits_of.simps[of 10 n] number_of_snoc digit_val_digit_char)
  qed
qed

lemma str_nat_nonempty: "str_nat n \<noteq> []"
  by (simp add: str_nat_def digits_of.simps[of 10 n])

lemma read_nat_str_nat:
  assumes "rest = [] \<or> \<not> is_digit (hd rest)"
  shows "read_nat (str_nat n @ rest) = Some (n, rest)"
proof -
  have tw: "takeWhile is_digit (str_nat n @ rest) = str_nat n"
    using assms str_nat_digits[of n] by (cases rest) (simp_all add: takeWhile_tail)
  have dw: "dropWhile is_digit (str_nat n @ rest) = rest"
    using assms str_nat_digits[of n] by (cases rest) (simp_all add: dropWhile_append2)
  show ?thesis
    by (simp add: read_nat_def tw dw str_nat_nonempty number_of_str_nat)
qed

lemma read_hex2_hex2: "read_hex2 (hex2 c @ rest) = Some (c, rest)"
proof -
  have lt: "unat c div 16 < 16" "unat c mod 16 < 16"
    using unat_channel_less[of c] by simp_all
  have "hex2 c = [digit_char (unat c div 16), digit_char (unat c mod 16)]"
    by (simp add: hex2_def digit_char_def)
  moreover have "(of_nat (16 * (unat c div 16) + unat c mod 16) :: channel) = c"
    by simp
  ultimately show ?thesis
    using lt by (simp add: read_hex2_def digit_val_digit_char)
qed

lemma six_digits_digits: "\<forall>c \<in> set (six_digits m). is_digit c"
proof -
  have "is_digit (''0123456789'' ! (k mod 10))" for k :: nat
  proof -
    have "k mod 10 < 10" by simp
    then have "is_digit (digit_char (k mod 10))" by (rule is_digit_digit_char)
    then show ?thesis by (simp add: digit_char_decimal)
  qed
  then show ?thesis by (simp add: six_digits_def)
qed

lemma digit_val_decimal: "digit_val (''0123456789'' ! (k mod 10)) = k mod 10"
proof -
  have lt: "k mod 10 < 10" by simp
  then have "digit_val (digit_char (k mod 10)) = k mod 10"
    by (intro digit_val_digit_char) simp
  with lt show ?thesis by (simp add: digit_char_decimal)
qed

lemma number_of_six_digits:
  assumes "m < 1000000"
  shows "number_of (six_digits m) = m"
proof -
  define m1 m2 m3 m4 m5 where "m1 = m div 10" and "m2 = m div 100" and "m3 = m div 1000"
    and "m4 = m div 10000" and "m5 = m div 100000"
  define a0 a1 a2 a3 a4 where "a0 = m mod 10" and "a1 = m1 mod 10" and "a2 = m2 mod 10"
    and "a3 = m3 mod 10" and "a4 = m4 mod 10"
  have d: "m2 = m1 div 10" "m3 = m2 div 10" "m4 = m3 div 10" "m5 = m4 div 10"
    by (simp_all add: m1_def m2_def m3_def m4_def m5_def div_mult2_eq[symmetric])
  have e: "m = 10 * m1 + a0" "m1 = 10 * m2 + a1" "m2 = 10 * m3 + a2" "m3 = 10 * m4 + a3"
    "m4 = 10 * m5 + a4"
    unfolding d a0_def a1_def a2_def a3_def a4_def m1_def by simp_all
  from assms have "m5 < 10" by (simp add: m5_def)
  then have a5: "m5 mod 10 = m5" by simp
  have "number_of (six_digits m) =
      10 * (10 * (10 * (10 * (10 * (m5 mod 10) + a4) + a3) + a2) + a1) + a0"
    by (simp add: six_digits_def number_of_def digit_val_decimal
          m1_def m2_def m3_def m4_def m5_def a0_def a1_def a2_def a3_def a4_def)
  also have "\<dots> = m"
    unfolding a5 by (simp only: e[symmetric])
  finally show ?thesis .
qed

lemma alpha_of_millionths:
  assumes "a \<le> 255"
  shows "nat (round_half_even (255 * (of_nat (millionths a) / 1000000))) = a"
proof -
  define x :: rat where "x = of_nat a * 1000000 / 255 - of_int (int (millionths a))"
  define c :: rat where "c = 255 / 1000000"
  define y :: rat where "y = of_nat a - 255 * (of_nat (millionths a) / 1000000)"
  have c: "0 \<le> c" "\<bar>c\<bar> = c" by (simp_all add: c_def)
  have xy: "x * c = y"
    by (simp add: x_def c_def y_def algebra_simps)
  have "\<bar>x\<bar> \<le> 127 / 255"
    unfolding x_def by (rule millionths_near)
  then have le: "\<bar>x\<bar> * c \<le> 127 / 255 * c"
    using c(1) by (rule mult_right_mono)
  have "\<bar>y\<bar> = \<bar>x\<bar> * c"
    by (metis abs_mult c(2) xy)
  also note le
  also have "127 / 255 * c = 127 / 1000000"
    by (simp add: c_def)
  finally have "\<bar>y\<bar> < 1 / 2" by linarith
  then have "\<bar>- y\<bar> < 1 / 2" by simp
  moreover have "- y = 255 * (of_nat (millionths a) / 1000000) - of_int (int a)"
    by (simp add: y_def)
  ultimately have "\<bar>255 * (of_nat (millionths a) / 1000000) - (of_int (int a) :: rat)\<bar> < 1 / 2"
    by (simp only:)
  then have "round_half_even (255 * (of_nat (millionths a) / 1000000)) = int a"
    by (rule round_half_even_unique)
  then show ?thesis by simp
qed

lemma parse_opacity_written:
  \<open>parse_opacity (''"'' @ (if a = 255 then [] else '' fill-opacity="0.''
        @ six_digits (millionths (unat a)) @ ''"'') @ ''/>'') = Some a\<close>
proof (cases "a = 255")
  case True
  then show ?thesis by (simp add: parse_opacity_def)
next
  case False
  let ?m = "millionths (unat a)"
  have lt: "unat a < 255"
    using False unat_channel_less[of a] by (simp add: channel_255)
  have m: "?m < 1000000" using lt by (rule millionths_less)
  have tw: \<open>takeWhile is_digit (six_digits ?m @ ''"/>'') = six_digits ?m\<close>
    using six_digits_digits[of ?m] by (simp add: takeWhile_tail)
  have dw: \<open>dropWhile is_digit (six_digits ?m @ ''"/>'') = ''"/>''\<close>
    using six_digits_digits[of ?m] by (simp add: dropWhile_append2)
  have zero: \<open>read_nat (''0'' @ ''.'' @ six_digits ?m @ ''"/>'')
                 = Some (0, ''.'' @ six_digits ?m @ ''"/>'')\<close>
    using read_nat_str_nat[of "''.'' @ six_digits ?m @ [CHR 0x22, CHR ''/'', CHR ''>'']" 0]
    by (simp add: str_nat_digit digit_char_def)
  have len: "length (six_digits ?m) = 6" by (simp add: six_digits_def)
  have "opacity_alpha 0 (six_digits ?m) = a"
    using alpha_of_millionths[of "unat a"] lt
    by (simp add: opacity_alpha_def len number_of_six_digits[OF m])
  with False tw dw zero show ?thesis
    by (simp add: parse_opacity_def)
qed

lemma write_rect_line: "write_rect r = rect_line r @ ''\<newline>''"
proof -
  obtain cr cg cb ca where c: "run_rgba r = (cr, cg, cb, ca)"
    by (metis prod_cases4)
  then have "r = \<lparr>run_y = run_y r, run_start = run_start r, run_len = run_len r,
                  run_rgba = (cr, cg, cb, ca)\<rparr>"
    by simp
  then have "write_rect r = write_rect \<lparr>run_y = run_y r, run_start = run_start r,
                  run_len = run_len r, run_rgba = (cr, cg, cb, ca)\<rparr>"
    by simp
  then show ?thesis
    unfolding write_rect_text by (simp add: rect_line_def c)
qed

lemma parse_rect_line: "parse_rect (rect_line r) = Some r"
proof -
  obtain cr cg cb ca where c: "run_rgba r = (cr, cg, cb, ca)"
    by (metis prod_cases4)
  define t10 where \<open>t10 = ''"'' @ (if ca = 255 then [] else '' fill-opacity="0.''
        @ six_digits (millionths (unat ca)) @ ''"'') @ ''/>''\<close>
  define t9 where "t9 = hex2 cb @ t10"
  define t8 where "t8 = hex2 cg @ t9"
  define t7 where "t7 = hex2 cr @ t8"
  define t6 where \<open>t6 = ''" height="1" fill="#'' @ t7\<close>
  define t5 where "t5 = str_nat (run_len r) @ t6"
  define t4 where \<open>t4 = ''" width="'' @ t5\<close>
  define t3 where "t3 = str_nat (run_y r) @ t4"
  define t2 where \<open>t2 = ''" y="'' @ t3\<close>
  define t1 where "t1 = str_nat (run_start r) @ t2"
  have line: \<open>rect_line r = ''  <rect x="'' @ t1\<close>
    by (simp add: rect_line_def c t1_def t2_def t3_def t4_def t5_def t6_def t7_def t8_def
          t9_def t10_def)
  have p1: \<open>strip_prefix ''  <rect x="'' (rect_line r) = Some t1\<close>
    unfolding line by (rule strip_prefix_append)
  have p2: "read_nat t1 = Some (run_start r, t2)"
    unfolding t1_def by (rule read_nat_str_nat) (simp add: t2_def)
  have p3: \<open>strip_prefix ''" y="'' t2 = Some t3\<close>
    unfolding t2_def by (rule strip_prefix_append)
  have p4: "read_nat t3 = Some (run_y r, t4)"
    unfolding t3_def by (rule read_nat_str_nat) (simp add: t4_def)
  have p5: \<open>strip_prefix ''" width="'' t4 = Some t5\<close>
    unfolding t4_def by (rule strip_prefix_append)
  have p6: "read_nat t5 = Some (run_len r, t6)"
    unfolding t5_def by (rule read_nat_str_nat) (simp add: t6_def)
  have p7: \<open>strip_prefix ''" height="1" fill="#'' t6 = Some t7\<close>
    unfolding t6_def by (rule strip_prefix_append)
  have p8: "read_hex2 t7 = Some (cr, t8)" "read_hex2 t8 = Some (cg, t9)"
    "read_hex2 t9 = Some (cb, t10)"
    unfolding t7_def t8_def t9_def by (rule read_hex2_hex2)+
  have p9: "parse_opacity t10 = Some ca"
    unfolding t10_def by (rule parse_opacity_written)
  have "parse_rect (rect_line r) =
          Some \<lparr>run_y = run_y r, run_start = run_start r, run_len = run_len r,
                 run_rgba = (cr, cg, cb, ca)\<rparr>"
    unfolding parse_rect_def by (simp only: p1 p2 p3 p4 p5 p6 p7 p8 p9 option.case prod.case)
  with c show ?thesis by simp
qed

lemma split_lines_line:
  "CHR ''\<newline>'' \<notin> set l \<Longrightarrow> split_lines (l @ CHR ''\<newline>'' # rest) = l # split_lines rest"
  by (induction l) auto

lemma newline_not_digit: "\<not> is_digit CHR ''\<newline>''"
  by (simp add: is_digit_def)

lemma str_nat_no_newline: "CHR ''\<newline>'' \<notin> set (str_nat n)"
  using str_nat_digits[of n] newline_not_digit by blast

lemma six_digits_no_newline: "CHR ''\<newline>'' \<notin> set (six_digits m)"
  using six_digits_digits[of m] newline_not_digit by blast

lemma digit_char_no_newline: "d < 16 \<Longrightarrow> digit_char d \<noteq> CHR ''\<newline>''"
  by (drule sixteen_cases, elim disjE) (simp_all add: digit_char_def)

lemma hex2_no_newline: "CHR ''\<newline>'' \<notin> set (hex2 c)"
proof -
  have lt: "unat c div 16 < 16" "unat c mod 16 < 16"
    using unat_channel_less[of c] by simp_all
  have "hex2 c = [digit_char (unat c div 16), digit_char (unat c mod 16)]"
    by (simp add: hex2_def digit_char_def)
  with digit_char_no_newline[OF lt(1)] digit_char_no_newline[OF lt(2)] show ?thesis
    by auto
qed

lemma rect_line_no_newline: "CHR ''\<newline>'' \<notin> set (rect_line r)"
proof -
  obtain cr cg cb ca where c: "run_rgba r = (cr, cg, cb, ca)"
    by (metis prod_cases4)
  show ?thesis
    by (simp add: rect_line_def c str_nat_no_newline hex2_no_newline six_digits_no_newline)
qed

lemma split_lines_rects:
  "split_lines (concat (map write_rect rs) @ rest) = map rect_line rs @ split_lines rest"
proof (induction rs)
  case Nil
  show ?case by simp
next
  case (Cons r rs)
  have step: "split_lines (rect_line r @ CHR ''\<newline>'' # (concat (map write_rect rs) @ rest))
          = rect_line r # split_lines (concat (map write_rect rs) @ rest)"
    using rect_line_no_newline by (rule split_lines_line)
  have eq: "concat (map write_rect (r # rs)) @ rest
          = rect_line r @ CHR ''\<newline>'' # (concat (map write_rect rs) @ rest)"
    by (simp add: write_rect_line)
  show ?case
    by (simp only: eq step Cons.IH) simp
qed

lemma svg_header_lines:
  \<open>svg_header w h = ''<?xml version="1.0" encoding="UTF-8"?>'' @ CHR ''\<newline>'' #
      (open_line w h @ CHR ''\<newline>'' # [])\<close>
  by (simp add: svg_header_def open_line_def)

lemma open_line_no_newline: "CHR ''\<newline>'' \<notin> set (open_line w h)"
  by (simp add: open_line_def str_nat_no_newline)

lemma parse_open_line: "parse_svg_open (open_line w h) = Some (w, h)"
proof -
  define t3 where \<open>t3 = str_nat h @ ''" viewBox="0 0 '' @ str_nat w @ '' '' @ str_nat h @ ''" ''
     @ ''shape-rendering="crispEdges">''\<close>
  define t2 where \<open>t2 = ''" height="'' @ t3\<close>
  define t1 where "t1 = str_nat w @ t2"
  have line: \<open>open_line w h = ''<svg xmlns="http://www.w3.org/2000/svg" width="'' @ t1\<close>
    by (simp add: open_line_def t1_def t2_def t3_def)
  have p1: \<open>strip_prefix ''<svg xmlns="http://www.w3.org/2000/svg" width="'' (open_line w h)
               = Some t1\<close>
    unfolding line by (rule strip_prefix_append)
  have p2: "read_nat t1 = Some (w, t2)"
    unfolding t1_def by (rule read_nat_str_nat) (simp add: t2_def)
  have p3: \<open>strip_prefix ''" height="'' t2 = Some t3\<close>
    unfolding t2_def by (rule strip_prefix_append)
  have p4: \<open>read_nat t3 = Some (h, ''" viewBox="0 0 '' @ str_nat w @ '' '' @ str_nat h @ ''" ''
     @ ''shape-rendering="crispEdges">'')\<close>
    unfolding t3_def by (rule read_nat_str_nat) simp
  show ?thesis
    unfolding parse_svg_open_def by (simp only: p1 p2 p3 p4 option.case prod.case)
qed

lemma map_filter_rects:
  "List.map_filter parse_rect (map rect_line rs @ [''</svg>'']) = rs"
proof -
  have "parse_rect ''</svg>'' = None"
    by (simp add: parse_rect_def)
  moreover have "List.map_filter parse_rect (map rect_line rs) = rs"
    by (induction rs) (simp_all add: List.map_filter_simps parse_rect_line)
  ultimately show ?thesis
    by (simp add: List.map_filter_def)
qed

lemma rasterize_written: "rasterize_svg (fst (svg_written img)) = Some (raster_of img)"
proof -
  let ?rs = "fst (encode img)"
  have doc: \<open>fst (svg_written img) =
      ''<?xml version="1.0" encoding="UTF-8"?>'' @ CHR ''\<newline>'' #
        (open_line (size_w img) (size_h img) @ CHR ''\<newline>'' #
           (concat (map write_rect ?rs) @ ''</svg>\<newline>''))\<close>
    by (simp add: svg_written_def encode_eq svg_header_lines svg_footer_def)
  have l1: \<open>CHR ''\<newline>'' \<notin> set ''<?xml version="1.0" encoding="UTF-8"?>''\<close>
    by simp
  have \<open>split_lines (fst (svg_written img)) =
      ''<?xml version="1.0" encoding="UTF-8"?>'' # open_line (size_w img) (size_h img)
        # map rect_line ?rs @ [''</svg>'']\<close>
    unfolding doc split_lines_line[OF l1] split_lines_line[OF open_line_no_newline]
      split_lines_rects
    by simp
  then show ?thesis
    by (simp add: rasterize_svg_def parse_open_line map_filter_rects raster_of_def)
qed

lemma find_cases:
  "(find P xs = None \<and> (\<forall>x \<in> set xs. \<not> P x)) \<or> (\<exists>x. find P xs = Some x \<and> x \<in> set xs \<and> P x)"
  by (induction xs) auto

lemma paint_encode:
  assumes "x < size_w img" and "y < size_h img"
  shows "paint (fst (encode img)) (x, y) =
           (if alpha (pixels img (x, y)) = 0 then (0, 0, 0, 0) else pixels img (x, y))"
proof -
  let ?P = "\<lambda>r. run_y r = y \<and> covers r x"
  let ?rs = "rev (fst (encode img))"
  have hit: "run_rgba r = pixels img (x, y) \<and> alpha (pixels img (x, y)) \<noteq> 0"
    if "r \<in> set ?rs" and "?P r" for r
  proof -
    from that(1) have "r \<in> set (fst (encode img))" by simp
    from encode_runs_ok[OF this] that(2) have ok: "run_ok img y r" by simp
    then have "\<forall>i. covers r i \<longrightarrow> pixels img (i, y) = run_rgba r" and "alpha (run_rgba r) \<noteq> 0"
      unfolding run_ok_def by blast+
    with that(2) show ?thesis by metis
  qed
  from find_cases[of ?P ?rs] show ?thesis
  proof (elim disjE exE conjE)
    assume none: "find ?P ?rs = None" and no: "\<forall>r \<in> set ?rs. \<not> ?P r"
    have "alpha (pixels img (x, y)) = 0"
    proof (rule ccontr)
      assume a: "alpha (pixels img (x, y)) \<noteq> 0"
      from scan_row_inv[OF assms(2), of 0] a assms(1)
      obtain r where r: "r \<in> set (fst (scan_row img y 0))" "covers r x" "run_ok img y r"
        by blast
      from r(1) assms(2) have "r \<in> set ?rs" by (auto simp: encode_eq)
      moreover from r(3) have "run_y r = y" by (simp add: run_ok_def)
      ultimately show False using no r(2) by blast
    qed
    with none show ?thesis by (simp add: paint_def)
  next
    fix r assume some: "find ?P ?rs = Some r" and r: "r \<in> set ?rs" "run_y r = y" "covers r x"
    from hit[OF r(1)] r(2,3) have "run_rgba r = pixels img (x, y)" "alpha (pixels img (x, y)) \<noteq> 0"
      by simp_all
    with some show ?thesis by (simp add: paint_def)
  qed
qed

lemma raster_visible: "same_pixels (raster_of img) (visible_part img)"
  by (simp add: same_pixels_def raster_of_def visible_part_def paint_encode)

lemma raster_exact:
  assumes "transparent_black img"
  shows "same_pixels (raster_of img) img"
proof -
  have "pixels (raster_of img) (x, y) = pixels img (x, y)"
    if "x < size_w img" "y < size_h img" for x y
  proof -
    from assms that have "alpha (pixels img (x, y)) = 0 \<longrightarrow> pixels img (x, y) = (0, 0, 0, 0)"
      unfolding transparent_black_def by simp
    with that show ?thesis by (simp add: raster_of_def paint_encode)
  qed
  then show ?thesis by (simp add: same_pixels_def raster_of_def)
qed

text \<open>
  The property as stated is false: a fully transparent pixel is skipped whatever its R, G
  and B are, so the rasterized buffer has \<open>(0, 0, 0, 0)\<close> where the original has
  \<open>(255, 0, 0, 0)\<close>. No reader of the text can do better, since two images that differ
  at that pixel give the same text.
\<close>

theorem round_trip_counterexample:
  "rasterize_svg (fst (svg_written img_clear_red)) = Some (raster_of img_clear_red)
   \<and> pixels (raster_of img_clear_red) (0, 0) = (0, 0, 0, 0)
   \<and> pixels img_clear_red (0, 0) = (255, 0, 0, 0)
   \<and> \<not> same_pixels (raster_of img_clear_red) img_clear_red
   \<and> svg_written img_clear_black = svg_written img_clear_red
   \<and> pixels img_clear_black (0, 0) \<noteq> pixels img_clear_red (0, 0)"
proof -
  have dims: "size_w img_clear_red = 2" "size_h img_clear_red = 1"
    by (simp_all add: img_clear_red_def image_of_rows_def)
  have orig: "pixels img_clear_red (0, 0) = (255, 0, 0, 0)"
    by (simp add: img_clear_red_def image_of_rows_def clear_red_def)
  have "(0::nat) < size_w img_clear_red" "(0::nat) < size_h img_clear_red"
    by (simp_all add: dims)
  from paint_encode[OF this] have painted: "pixels (raster_of img_clear_red) (0, 0) = (0, 0, 0, 0)"
    by (simp add: raster_of_def orig alpha_def)
  have differ: "\<not> same_pixels (raster_of img_clear_red) img_clear_red"
  proof
    assume "same_pixels (raster_of img_clear_red) img_clear_red"
    then have "\<forall>x \<in> {0..<size_w (raster_of img_clear_red)}.
                 \<forall>y \<in> {0..<size_h (raster_of img_clear_red)}.
                   pixels (raster_of img_clear_red) (x, y) = pixels img_clear_red (x, y)"
      unfolding same_pixels_def by (elim conjE)
    moreover have "0 \<in> {0..<size_w (raster_of img_clear_red)}"
      "0 \<in> {0..<size_h (raster_of img_clear_red)}"
      by (simp_all add: raster_of_def dims)
    ultimately have "pixels (raster_of img_clear_red) (0, 0) = pixels img_clear_red (0, 0)"
      by blast
    with painted orig show False by simp
  qed
  have "same_visible img_clear_black img_clear_red"
    by (simp add: same_visible_def img_clear_black_def img_clear_red_def image_of_rows_def
          atLeastLessThan_upt upt_rec alpha_def clear_black_def clear_red_def red_def)
  then have same: "svg_written img_clear_black = svg_written img_clear_red"
    by (rule svg_written_visible)
  have "pixels img_clear_black (0, 0) \<noteq> pixels img_clear_red (0, 0)"
    by (simp add: img_clear_black_def img_clear_red_def image_of_rows_def
          clear_black_def clear_red_def)
  with rasterize_written[of img_clear_red] painted orig differ same show ?thesis
    by simp
qed

text \<open>
  C1, amended. For every decoded image, the written text rasterizes to an image of the
  same dimensions that has, at every coordinate, the original RGBA value where the
  original alpha is not 0 and \<open>(0, 0, 0, 0)\<close> where it is 0. The original buffer is
  reproduced exactly, pixel for pixel, when each of its fully transparent pixels is
  \<open>(0, 0, 0, 0)\<close>.
\<close>

theorem round_trip_visible:
  "\<exists>out. rasterize_svg (fst (svg_written img)) = Some out
         \<and> same_pixels out (visible_part img)
         \<and> (transparent_black img \<longrightarrow> same_pixels out img)"
  using rasterize_written[of img] raster_visible[of img] raster_exact[of img] by blast

theorem round_trip_visible_witness:
  "transparent_black img_round
   \<and> (\<exists>out. rasterize_svg (fst (svg_written img_round)) = Some out \<and> same_pixels out img_round)"
proof -
  have "transparent_black img_round"
    by (simp add: transparent_black_def img_round_def image_of_rows_def
          atLeastLessThan_upt upt_rec alpha_def red_def clear_black_def half_blue_def)
  with round_trip_visible[of img_round] show ?thesis
    by blast
qed

end
